theory Spec2Isabelle
  imports Main
begin

section \<open>Python strings\<close>

text \<open>
  A Python \<open>str\<close> is a sequence of Unicode code points and \<open>len\<close> counts code points, so
  a string is modelled as a list of code points. ASCII literals of the source are written
  through \<open>py\<close>.
\<close>

type_synonym pystr = "nat list"

definition py :: "string \<Rightarrow> pystr" where
  "py s = map of_char s"

text \<open>\<open>str(n)\<close> and \<open>f"{n}"\<close> for a Python int: decimal digits, a leading minus sign when negative.\<close>

fun digits :: "nat \<Rightarrow> pystr" where
  "digits n = (if n < 10 then [48 + n] else digits (n div 10) @ [48 + n mod 10])"

declare digits.simps [simp del]

definition str_int :: "int \<Rightarrow> pystr" where
  "str_int i = (if i < 0 then 45 # digits (nat (- i)) else digits (nat i))"

section \<open>Version negotiation (\<open>src/gup/__main__.py\<close>, \<open>next_free_version\<close>)\<close>

text \<open>The f-string \<open>f"v{major}.{minor}.{k}"\<close>.\<close>

definition version_tag :: "int \<Rightarrow> int \<Rightarrow> int \<Rightarrow> pystr" where
  "version_tag major minor k =
     py ''v'' @ str_int major @ py ''.'' @ str_int minor @ py ''.'' @ str_int k"

text \<open>
  \<open>tag_exists\<close> asks git whether \<open>refs/tags/<tag>\<close> exists; the negotiator only uses its
  boolean answer, so it is a parameter here. The repository's test replaces it by membership
  in a set of existing tags (\<open>fake_tag_exists\<close>).
\<close>

definition fake_tag_exists :: "pystr set \<Rightarrow> pystr \<Rightarrow> bool" where
  "fake_tag_exists existing tag = (tag \<in> existing)"

text \<open>
  The \<open>while True\<close> loop. It need not terminate (every candidate may exist), so the result is
  an option and \<open>None\<close> stands for a loop that never returns.
\<close>

partial_function (option) next_free_version ::
  "(pystr \<Rightarrow> bool) \<Rightarrow> int \<Rightarrow> int \<Rightarrow> int \<Rightarrow> pystr option" where
  "next_free_version tag_exists major minor patch =
     (let candidate = version_tag major minor (patch + 1) in
      if \<not> tag_exists candidate then Some candidate
      else next_free_version tag_exists major minor (patch + 1))"

declare next_free_version.simps [code]

section \<open>String methods used by the scripts\<close>

text \<open>
  \<open>str.isspace\<close> for one code point (the Unicode whitespace table of CPython) and the line
  boundaries of \<open>str.splitlines\<close>.
\<close>

definition isspace :: "nat \<Rightarrow> bool" where
  "isspace c \<longleftrightarrow> (9 \<le> c \<and> c \<le> 13) \<or> (28 \<le> c \<and> c \<le> 32) \<or> c = 133 \<or> c = 160
     \<or> c = 5760 \<or> (8192 \<le> c \<and> c \<le> 8202) \<or> c = 8232 \<or> c = 8233 \<or> c = 8239
     \<or> c = 8287 \<or> c = 12288"

definition is_linebreak :: "nat \<Rightarrow> bool" where
  "is_linebreak c \<longleftrightarrow> (10 \<le> c \<and> c \<le> 13) \<or> (28 \<le> c \<and> c \<le> 30) \<or> c = 133
     \<or> c = 8232 \<or> c = 8233"

definition lstrip :: "pystr \<Rightarrow> pystr" where
  "lstrip s = dropWhile isspace s"

definition rstrip :: "pystr \<Rightarrow> pystr" where
  "rstrip s = rev (dropWhile isspace (rev s))"

definition strip :: "pystr \<Rightarrow> pystr" where
  "strip s = rstrip (lstrip s)"

text \<open>
  \<open>s.splitlines()\<close>: a scan that closes the current line at every line boundary, takes
  \<open>\r\n\<close> as one boundary, and yields no empty last line.
\<close>

fun splitlines_from :: "pystr \<Rightarrow> pystr \<Rightarrow> pystr list" where
  "splitlines_from cur [] = (if cur = [] then [] else [cur])"
| "splitlines_from cur [c] = (if is_linebreak c then [cur] else [cur @ [c]])"
| "splitlines_from cur (c # d # cs) =
     (if c = 13 \<and> d = 10 then cur # splitlines_from [] cs
      else if is_linebreak c then cur # splitlines_from [] (d # cs)
      else splitlines_from (cur @ [c]) (d # cs))"

definition splitlines :: "pystr \<Rightarrow> pystr list" where
  "splitlines s = splitlines_from [] s"

text \<open>\<open>sep.join(lines)\<close>.\<close>

fun join :: "pystr \<Rightarrow> pystr list \<Rightarrow> pystr" where
  "join sep [] = []"
| "join sep [l] = l"
| "join sep (l # ls) = l @ sep @ join sep ls"

text \<open>The slice \<open>s[:n]\<close>; a negative \<open>n\<close> counts from the end.\<close>

definition slice_to :: "pystr \<Rightarrow> int \<Rightarrow> pystr" where
  "slice_to s n = (if 0 \<le> n then take (nat n) s else take (length s - nat (- n)) s)"

text \<open>\<open>s.rsplit(sep, 1)\<close> for a one-character separator: split at its last occurrence.\<close>

definition rsplit1 :: "nat \<Rightarrow> pystr \<Rightarrow> pystr list" where
  "rsplit1 sep s =
     (if sep \<in> set s
      then [rev (tl (dropWhile (\<lambda>c. c \<noteq> sep) (rev s))), rev (takeWhile (\<lambda>c. c \<noteq> sep) (rev s))]
      else [s])"

text \<open>The substring test \<open>sub in s\<close>.\<close>

fun contains :: "pystr \<Rightarrow> pystr \<Rightarrow> bool" where
  "contains sub [] = (sub = [])"
| "contains sub (c # cs) = (take (length sub) (c # cs) = sub \<or> contains sub cs)"

section \<open>Message normalizers\<close>

text \<open>\<open>enforce_summary_limit(msg, limit=72)\<close> of \<open>src/gup/__main__.py\<close>.\<close>

definition enforce_summary_limit :: "pystr \<Rightarrow> int \<Rightarrow> pystr" where
  "enforce_summary_limit msg limit =
     (case splitlines (strip msg) of
        [] \<Rightarrow> msg
      | s # rest \<Rightarrow>
          if int (length s) \<le> limit then msg
          else let cut = slice_to s limit;
                   cut = (if 32 \<in> set cut then hd (rsplit1 32 cut) else cut)
               in join [10] (cut # rest))"

text \<open>
  \<open>truncate_summary(s, limit=80)\<close> of \<open>src/gup.py\<close>; the appended marker is the single code
  point U+2026.
\<close>

definition truncate_summary :: "pystr \<Rightarrow> int \<Rightarrow> pystr" where
  "truncate_summary s0 limit =
     (let s = strip s0 in
      if int (length s) \<le> limit then s
      else let cut = slice_to s limit;
               cut = (if 32 \<in> set cut then hd (rsplit1 32 cut) else cut)
           in cut @ [8230])"

text \<open>
  The first line as the normalizer reads it, \<open>msg.strip().splitlines()[0]\<close>; \<open>None\<close> when
  the stripped text has no line.
\<close>

definition first_line :: "pystr \<Rightarrow> pystr option" where
  "first_line msg = (case splitlines (strip msg) of [] \<Rightarrow> None | s # rest \<Rightarrow> Some s)"

section \<open>The text-generation subprocess\<close>

text \<open>
  What the \<open>llm\<close> child process can do to the script. Every exception that
  \<open>subprocess\<close> raises derives from \<open>Exception\<close>; \<open>TimeoutExpired\<close> is kept apart because
  \<open>src/gup.py\<close> has a handler of its own for it. The argument is \<open>str(e)\<close>.
\<close>

datatype pyexc = TimeoutExpired pystr | OtherException pystr

fun str_exc :: "pyexc \<Rightarrow> pystr" where
  "str_exc (TimeoutExpired m) = m"
| "str_exc (OtherException m) = m"

text \<open>
  A started process: what the \<open>k\<close>-th call of \<open>p.poll()\<close> gives (an exception, or whether the
  process has exited), what \<open>p.kill()\<close> does, and what \<open>p.communicate\<close> gives (an exception,
  or stdout and stderr).
\<close>

record llm_process =
  poll :: "nat \<Rightarrow> pyexc + bool"
  kill :: "pyexc option"
  communicate :: "pyexc + pystr \<times> pystr"

datatype llm_launch = Popen_raises pyexc | Popen_returns llm_process

subsection \<open>\<open>src/gup/__main__.py\<close>: \<open>wait_with_countdown\<close> and \<open>generate_message\<close>\<close>

text \<open>
  The countdown loop, \<open>k\<close> counting the polls made so far. It leaves with \<open>True\<close> at the
  first poll that sees the process gone, with \<open>False\<close> when \<open>remaining\<close> reaches 0.
\<close>

function countdown :: "llm_process \<Rightarrow> nat \<Rightarrow> int \<Rightarrow> pyexc + bool" where
  "countdown proc k remaining =
     (if remaining > 0 then
        (case poll proc k of
           Inl e \<Rightarrow> Inl e
         | Inr exited \<Rightarrow> if exited then Inr True else countdown proc (k + 1) (remaining - 1))
      else Inr False)"
  by pat_completeness auto
termination
  by (relation "measure (\<lambda>(proc, k, remaining). nat remaining)") auto

declare countdown.simps [simp del]

definition wait_with_countdown :: "llm_process \<Rightarrow> int \<Rightarrow> pyexc + bool" where
  "wait_with_countdown proc timeout = countdown proc 0 timeout"

text \<open>
  The body of the \<open>try\<close> of \<open>generate_message\<close>: \<open>Inl\<close> is an exception raised inside it.
  \<open>commit_msg\<close> is the draft of the enclosing scope, \<open>timeout\<close> the value of \<open>int(timeout)\<close>.
\<close>

definition generate_message_try ::
  "pystr \<Rightarrow> int \<Rightarrow> llm_launch \<Rightarrow> pyexc + pystr \<times> pystr option" where
  "generate_message_try commit_msg timeout launch =
     (case launch of
        Popen_raises e \<Rightarrow> Inl e
      | Popen_returns p \<Rightarrow>
          (case wait_with_countdown p timeout of
             Inl e \<Rightarrow> Inl e
           | Inr completed \<Rightarrow>
               if \<not> completed then
                 (case kill p of
                    Some e \<Rightarrow> Inl e
                  | None \<Rightarrow> Inr (commit_msg, Some (py ''AI request timed out'')))
               else
                 (case communicate p of
                    Inl e \<Rightarrow> Inl e
                  | Inr (out, err) \<Rightarrow>
                      if strip out \<noteq> [] then Inr (enforce_summary_limit (strip out) 72, None)
                      else Inr (commit_msg,
                             Some (if strip err \<noteq> [] then strip err
                                   else py ''AI returned empty output'')))))"

text \<open>\<open>generate_message\<close> with its handler \<open>except Exception as e: return commit_msg, str(e)\<close>.\<close>

definition generate_message ::
  "pystr \<Rightarrow> int \<Rightarrow> llm_launch \<Rightarrow> pyexc + pystr \<times> pystr option" where
  "generate_message commit_msg timeout launch =
     (case generate_message_try commit_msg timeout launch of
        Inl e \<Rightarrow> Inr (commit_msg, Some (str_exc e))
      | Inr r \<Rightarrow> Inr r)"

subsection \<open>\<open>src/gup.py\<close>: \<open>generate_ai_commit_message\<close>\<close>

text \<open>
  The function returns the accepted text or \<open>None\<close>; the reason of a rejection is printed
  with \<open>warn\<close>, so the printed warnings are part of the result here. \<open>DEBUG_AI\<close> is the
  module constant. \<open>str.lower\<close> is a parameter: only its result is searched for the two
  refusal phrases.
\<close>

definition DEBUG_AI :: bool where
  "DEBUG_AI = True"

definition warn_too_small :: pystr where
  "warn_too_small = [9888, 65039] @ py '' AI returned empty or too-small output.''"

definition warn_refused :: pystr where
  "warn_refused = [9888, 65039] @ py '' Model refused structured prompt.''"

definition warn_timeout :: pystr where
  "warn_timeout = [9888, 65039] @ py '' AI timeout.''"

definition warn_failure :: "pyexc \<Rightarrow> pystr" where
  "warn_failure e = [9888, 65039] @ py '' AI failure: '' @ str_exc e"

definition generate_ai_commit_message_try ::
  "(pystr \<Rightarrow> pystr) \<Rightarrow> llm_launch \<Rightarrow> pyexc + pystr option \<times> pystr list" where
  "generate_ai_commit_message_try lower launch =
     (case launch of
        Popen_raises e \<Rightarrow> Inl e
      | Popen_returns proc \<Rightarrow>
          (case communicate proc of
             Inl e \<Rightarrow> Inl e
           | Inr (out, errout) \<Rightarrow>
               let printed = (if DEBUG_AI \<and> errout \<noteq> [] then [py ''[AI stderr] '' @ errout]
                              else [])
               in if out = [] \<or> length (strip out) < 10 then
                    Inr (None, printed @ [warn_too_small])
                  else if contains (py ''what would you like me to'') (lower out)
                          \<or> contains (py ''please provide me'') (lower out) then
                    Inr (None, printed @ [warn_refused])
                  else Inr (Some (strip out), printed)))"

definition generate_ai_commit_message ::
  "(pystr \<Rightarrow> pystr) \<Rightarrow> llm_launch \<Rightarrow> pyexc + pystr option \<times> pystr list" where
  "generate_ai_commit_message lower launch =
     (case generate_ai_commit_message_try lower launch of
        Inl (TimeoutExpired m) \<Rightarrow> Inr (None, [warn_timeout])
      | Inl (OtherException m) \<Rightarrow> Inr (None, [warn_failure (OtherException m)])
      | Inr r \<Rightarrow> Inr r)"

text \<open>A lower-casing of the ASCII letters, to run the function on concrete ASCII output.\<close>

definition lower_ascii :: "pystr \<Rightarrow> pystr" where
  "lower_ascii s = map (\<lambda>c. if 65 \<le> c \<and> c \<le> 90 then c + 32 else c) s"

section \<open>The final commit message\<close>

text \<open>
  \<open>datetime.datetime.now().strftime("%Y-%m-%d %H:%M:%S")\<close>: the fields of the datetime, each
  zero-padded to its width.
\<close>

record datetime =
  year :: nat
  month :: nat
  day :: nat
  hour :: nat
  minute :: nat
  second :: nat

definition zero_pad :: "nat \<Rightarrow> nat \<Rightarrow> pystr" where
  "zero_pad w n = replicate (w - length (digits n)) 48 @ digits n"

definition strftime :: "datetime \<Rightarrow> pystr" where
  "strftime dt =
     zero_pad 4 (year dt) @ py ''-'' @ zero_pad 2 (month dt) @ py ''-'' @ zero_pad 2 (day dt)
     @ py '' '' @ zero_pad 2 (hour dt) @ py '':'' @ zero_pad 2 (minute dt) @ py '':''
     @ zero_pad 2 (second dt)"

text \<open>
  The fields of a \<open>datetime\<close> object are in these ranges; the year is taken from 1000 on,
  where \<open>%Y\<close> gives four digits on every platform.
\<close>

definition valid_datetime :: "datetime \<Rightarrow> bool" where
  "valid_datetime dt \<longleftrightarrow> 1000 \<le> year dt \<and> year dt \<le> 9999 \<and> 1 \<le> month dt \<and> month dt \<le> 12
     \<and> 1 \<le> day dt \<and> day dt \<le> 31 \<and> hour dt \<le> 23 \<and> minute dt \<le> 59 \<and> second dt \<le> 59"

text \<open>
  A text has the shape of a pattern such as \<open>YYYY-MM-DD HH:MM:SS\<close> when it has a decimal
  digit wherever the pattern has a letter and the pattern's own character elsewhere.
\<close>

definition is_letter :: "char \<Rightarrow> bool" where
  "is_letter p \<longleftrightarrow> (65::nat) \<le> of_char p \<and> (of_char p :: nat) \<le> 90"

fun has_shape :: "string \<Rightarrow> pystr \<Rightarrow> bool" where
  "has_shape [] [] = True"
| "has_shape (p # ps) (c # cs) =
     ((if is_letter p then 48 \<le> c \<and> c \<le> 57 else c = of_char p) \<and> has_shape ps cs)"
| "has_shape _ _ = False"

text \<open>The f-string \<open>final_msg\<close> of \<open>src/gup/__main__.py\<close>.\<close>

definition final_msg :: "pystr \<Rightarrow> pystr \<Rightarrow> pystr \<Rightarrow> pystr" where
  "final_msg commit_msg next_version ts =
     commit_msg @ [10] @ [10] @ py ''Version: '' @ next_version @ [10]
     @ py ''Timestamp: '' @ ts @ [10]"

text \<open>The f-string \<open>final_msg\<close> of \<open>src/gup.py\<close>; the dash is U+2014.\<close>

definition final_msg_gup :: "pystr \<Rightarrow> pystr \<Rightarrow> pystr \<Rightarrow> pystr \<Rightarrow> pystr" where
  "final_msg_gup commit_msg next_version title timestamp =
     py ''Version: '' @ next_version @ py '' '' @ [8212] @ py '' '' @ title @ [10]
     @ py ''Timestamp: '' @ timestamp @ [10] @ [10] @ commit_msg @ [10]"

section \<open>Running git\<close>

text \<open>
  A child process is started from an argument vector (\<open>src/gup/__main__.py\<close>) or from a shell
  command line (\<open>src/gup.py\<close>). It either cannot be started or exits with a status and its
  captured standard output. The operating system answers a command as a function of
  everything that was run before, so the state of a run is its history.
\<close>

datatype command = Argv "pystr list" | Shell pystr

datatype proc = Launch_error pystr | Exited int pystr

type_synonym history = "(command \<times> proc) list"

type_synonym os = "history \<Rightarrow> command \<Rightarrow> proc"

definition spawn :: "os \<Rightarrow> command \<Rightarrow> history \<Rightarrow> proc \<times> history" where
  "spawn os cmd h = (let r = os h cmd in (r, h @ [(cmd, r)]))"

text \<open>
  \<open>subprocess.check_output(cmd, text=True)\<close> and \<open>subprocess.check_call(cmd)\<close>: a non-zero
  exit status raises \<open>CalledProcessError\<close> (its message, which quotes the command, is
  shortened to the name of the exception).
\<close>

definition check_output :: "os \<Rightarrow> command \<Rightarrow> history \<Rightarrow> (pyexc + pystr) \<times> history" where
  "check_output os cmd h =
     (case spawn os cmd h of
        (Launch_error m, h') \<Rightarrow> (Inl (OtherException m), h')
      | (Exited status out, h') \<Rightarrow>
          (if status = 0 then Inr out
           else Inl (OtherException (py ''CalledProcessError'')), h'))"

definition check_call :: "os \<Rightarrow> command \<Rightarrow> history \<Rightarrow> pyexc option \<times> history" where
  "check_call os cmd h =
     (case spawn os cmd h of
        (Launch_error m, h') \<Rightarrow> (Some (OtherException m), h')
      | (Exited status out, h') \<Rightarrow>
          (if status = 0 then None
           else Some (OtherException (py ''CalledProcessError'')), h'))"

text \<open>\<open>safe\<close>: the stripped output, or the empty string after any exception.\<close>

definition safe :: "os \<Rightarrow> command \<Rightarrow> history \<Rightarrow> pystr \<times> history" where
  "safe os cmd h =
     (case check_output os cmd h of
        (Inl e, h') \<Rightarrow> ([], h')
      | (Inr out, h') \<Rightarrow> (strip out, h'))"

text \<open>\<open>run(argv)\<close> without capture.\<close>

definition run :: "os \<Rightarrow> command \<Rightarrow> history \<Rightarrow> pyexc option \<times> history" where
  "run os cmd h = check_call os cmd h"

definition git_config :: "os \<Rightarrow> pystr \<Rightarrow> history \<Rightarrow> pystr \<times> history" where
  "git_config os key h = safe os (Argv [py ''git'', py ''config'', key]) h"

section \<open>Identity (\<open>read_identity\<close> of \<open>src/gup/__main__.py\<close>)\<close>

definition read_identity :: "os \<Rightarrow> history \<Rightarrow> (pystr \<times> pystr \<times> pystr) \<times> history" where
  "read_identity os h =
     (let (n, h1) = git_config os (py ''user.name'') h;
          (e, h2) = git_config os (py ''user.email'') h1
      in if n \<noteq> [] \<or> e \<noteq> [] then ((n, e, py ''repo''), h2)
         else
           let (n, h3) = safe os (Argv [py ''git'', py ''config'', py ''--global'',
                                       py ''user.name'']) h2;
               (e, h4) = safe os (Argv [py ''git'', py ''config'', py ''--global'',
                                       py ''user.email'']) h3
           in if n \<noteq> [] \<or> e \<noteq> [] then ((n, e, py ''global''), h4)
              else (([], [], py ''none''), h4))"

section \<open>The default summary (\<open>main\<close> of \<open>src/gup/__main__.py\<close>)\<close>

text \<open>The conditional expression that first assigns \<open>commit_msg\<close>.\<close>

definition initial_commit_msg :: "bool \<Rightarrow> pystr list \<Rightarrow> pystr" where
  "initial_commit_msg bootstrap files =
     (if bootstrap then py ''Initial commit''
      else if length files = 1 then py ''Update project configuration''
      else py ''Update '' @ str_int (int (length files)) @ py '' project files'')"

section \<open>Staging and the check for staged changes\<close>

text \<open>How a stretch of a script ends: it goes on, calls \<open>sys.exit\<close>, or dies of an exception.\<close>

datatype outcome = Continues | Exit int | Uncaught pyexc

text \<open>
  \<open>show_repo_dashboard\<close> prints what these queries answer; it changes nothing but the
  history of the run.
\<close>

definition show_repo_dashboard :: "os \<Rightarrow> history \<Rightarrow> history" where
  "show_repo_dashboard os h =
     (let (ident, h) = read_identity os h;
          (model, h) = git_config os (py ''gup.model'') h;
          (timeout, h) = git_config os (py ''gup.timeout'') h;
          (branch, h) = safe os (Argv [py ''git'', py ''branch'', py ''--show-current'']) h;
          (tag, h) = safe os (Argv [py ''git'', py ''describe'', py ''--tags'',
                                    py ''--abbrev=0'']) h;
          (remotes, h) = safe os (Argv [py ''git'', py ''remote'', py ''-v'']) h;
          (status, h) = safe os (Argv [py ''git'', py ''status'', py ''--short'']) h;
          (log, h) = safe os (Argv [py ''git'', py ''log'', py ''-3'',
                                    py ''--pretty=format:%h | %ad | %s'', py ''--date=short'']) h
      in h)"

text \<open>
  \<open>main\<close> of \<open>src/gup/__main__.py\<close> from \<open>run(["git", "add", "."])\<close> to the exit taken when
  nothing is staged; the staged file list is handed on otherwise.
\<close>

definition stage_and_check :: "os \<Rightarrow> history \<Rightarrow> (outcome \<times> pystr list) \<times> history" where
  "stage_and_check os h =
     (case run os (Argv [py ''git'', py ''add'', py ''.'']) h of
        (Some e, h1) \<Rightarrow> ((Uncaught e, []), h1)
      | (None, h1) \<Rightarrow>
          let (out, h2) = safe os (Argv [py ''git'', py ''diff'', py ''--cached'',
                                         py ''--name-only'']) h1;
              files = splitlines out
          in if files = [] then ((Exit 0, files), show_repo_dashboard os h2)
             else ((Continues, files), h2))"

text \<open>The section \<open>STAGE + DIFF\<close> of \<open>src/gup.py\<close>, up to \<open>sys.exit(3)\<close>.\<close>

definition stage_and_check_gup :: "os \<Rightarrow> history \<Rightarrow> (outcome \<times> pystr) \<times> history" where
  "stage_and_check_gup os h =
     (case run os (Shell (py ''git add .'')) h of
        (Some e, h1) \<Rightarrow> ((Uncaught e, []), h1)
      | (None, h1) \<Rightarrow>
          let (changed, h2) = safe os (Shell (py ''git diff --cached --name-only'')) h1
          in if changed = [] then ((Exit 3, changed), h2)
             else ((Continues, changed), h2))"

text \<open>The git commands that create a commit, create a tag or push.\<close>

definition releases :: "command \<Rightarrow> bool" where
  "releases cmd \<longleftrightarrow>
     (case cmd of
        Argv argv \<Rightarrow> take 2 argv \<in> {[py ''git'', py ''commit''], [py ''git'', py ''tag''],
                                      [py ''git'', py ''push'']}
      | Shell line \<Rightarrow> contains (py ''git commit'') line \<or> contains (py ''git tag'') line
                        \<or> contains (py ''git push'') line)"

text \<open>The commands a stretch of a run has added to the history.\<close>

definition commands_since :: "history \<Rightarrow> history \<Rightarrow> command list" where
  "commands_since h h' = map fst (drop (length h) h')"

section \<open>How git answers \<open>git config\<close>\<close>

text \<open>
  git keeps configuration values per scope; here the repository's own file and the user's
  global file. \<open>git config <key>\<close>, with no scope option, prints the value in effect: the
  repository's when it has one, else the global one. \<open>git config --global <key>\<close> reads the
  global file alone. A value is printed with a newline after it; a key that is not set
  prints nothing and gives exit status 1.
\<close>

record git_config_files =
  local_config :: "pystr \<rightharpoonup> pystr"
  global_config :: "pystr \<rightharpoonup> pystr"

definition print_value :: "pystr option \<Rightarrow> proc" where
  "print_value v = (case v of None \<Rightarrow> Exited 1 [] | Some x \<Rightarrow> Exited 0 (x @ [10]))"

fun git_config_answer :: "git_config_files \<Rightarrow> pystr list \<Rightarrow> proc" where
  "git_config_answer files [g, c, key] =
     (if g = py ''git'' \<and> c = py ''config'' then
        print_value (case local_config files key of
                       Some v \<Rightarrow> Some v
                     | None \<Rightarrow> global_config files key)
      else Exited 1 [])"
| "git_config_answer files [g, c, scope, key] =
     (if g = py ''git'' \<and> c = py ''config'' \<and> scope = py ''--global'' then
        print_value (global_config files key)
      else Exited 1 [])"
| "git_config_answer files argv = Exited 1 []"

text \<open>The operating system of a machine with these files, as far as \<open>git config\<close> goes.\<close>

definition git_os :: "git_config_files \<Rightarrow> os" where
  "git_os files h cmd =
     (case cmd of Argv argv \<Rightarrow> git_config_answer files argv | Shell line \<Rightarrow> Exited 1 [])"

section \<open>Example environments\<close>

text \<open>
  A machine whose global configuration has a user name and an e-mail address and whose
  repository has none of its own.
\<close>

definition global_only :: git_config_files where
  "global_only = \<lparr>local_config = Map.empty,
                  global_config = [py ''user.name'' \<mapsto> py ''Ann'',
                                   py ''user.email'' \<mapsto> py ''ann@example.org'']\<rparr>"

text \<open>A system where every command succeeds and prints nothing.\<close>

definition quiet_os :: os where
  "quiet_os h cmd = Exited 0 []"

text \<open>An \<open>llm\<close> process that has exited at the first poll with the given output.\<close>

definition answers :: "pystr \<Rightarrow> pystr \<Rightarrow> llm_process" where
  "answers out err = \<lparr>poll = (\<lambda>k. Inr True), kill = None, communicate = Inr (out, err)\<rparr>"

text \<open>An \<open>llm\<close> process that never exits.\<close>

definition hung :: llm_process where
  "hung = \<lparr>poll = (\<lambda>k. Inr False), kill = None,
           communicate = Inl (TimeoutExpired (py ''timed out''))\<rparr>"

text \<open>A moment for \<open>datetime.now()\<close>.\<close>

definition demo_now :: datetime where
  "demo_now = \<lparr>year = 2024, month = 1, day = 2, hour = 3, minute = 4, second = 5\<rparr>"

section \<open>Decimal formatting is injective\<close>

lemma digits_nonempty: "digits n \<noteq> []"
  by (subst digits.simps) simp

lemma digits_ge_48: "c \<in> set (digits n) \<Longrightarrow> 48 \<le> c"
proof (induction n rule: digits.induct)
  case (1 n)
  show ?case
  proof (cases "n < 10")
    case True
    with "1.prems" show ?thesis by (subst (asm) digits.simps) simp
  next
    case False
    with "1.prems" have "c \<in> set (digits (n div 10)) \<or> c = 48 + n mod 10"
      by (subst (asm) digits.simps) auto
    with False "1.IH" show ?thesis by auto
  qed
qed

lemma digits_le_57: "c \<in> set (digits n) \<Longrightarrow> c \<le> 57"
proof (induction n rule: digits.induct)
  case (1 n)
  show ?case
  proof (cases "n < 10")
    case True
    with "1.prems" show ?thesis by (subst (asm) digits.simps) simp
  next
    case False
    with "1.prems" have "c \<in> set (digits (n div 10)) \<or> c = 48 + n mod 10"
      by (subst (asm) digits.simps) auto
    moreover have "48 + n mod 10 \<le> 57" by simp
    ultimately show ?thesis using False "1.IH" by auto
  qed
qed

lemma digits_inj: "digits m = digits n \<Longrightarrow> m = n"
proof (induction m arbitrary: n rule: digits.induct)
  case (1 m)
  show ?case
  proof (cases "m < 10")
    case m: True
    show ?thesis
    proof (cases "n < 10")
      case True
      with m "1.prems" show ?thesis
        by (simp add: digits.simps [of m] digits.simps [of n])
    next
      case False
      with m "1.prems" have "[48 + m] = digits (n div 10) @ [48 + n mod 10]"
        by (simp add: digits.simps [of m] digits.simps [of n])
      then have "digits (n div 10) = []" by simp
      then show ?thesis by (simp add: digits_nonempty)
    qed
  next
    case m: False
    show ?thesis
    proof (cases "n < 10")
      case True
      with m "1.prems" have "digits (m div 10) @ [48 + m mod 10] = [48 + n]"
        by (simp add: digits.simps [of m] digits.simps [of n])
      then have "digits (m div 10) = []" by simp
      then show ?thesis by (simp add: digits_nonempty)
    next
      case False
      with m "1.prems"
      have "digits (m div 10) @ [48 + m mod 10] = digits (n div 10) @ [48 + n mod 10]"
        by (simp add: digits.simps [of m] digits.simps [of n])
      then have "digits (m div 10) = digits (n div 10)" and r: "m mod 10 = n mod 10"
        by simp_all
      with m "1.IH" have "m div 10 = n div 10" by blast
      with r show ?thesis by (metis div_mult_mod_eq)
    qed
  qed
qed

lemma str_int_inj: "str_int i = str_int j \<Longrightarrow> i = j"
proof -
  assume eq: "str_int i = str_int j"
  have no_minus: "digits n \<noteq> 45 # xs" for n xs
  proof
    assume "digits n = 45 # xs"
    then have "45 \<in> set (digits n)" by simp
    then have "(48::nat) \<le> 45" by (rule digits_ge_48)
    then show False by simp
  qed
  show ?thesis
  proof (cases "i < 0")
    case i: True
    show ?thesis
    proof (cases "j < 0")
      case True
      with i eq have "digits (nat (- i)) = digits (nat (- j))" by (simp add: str_int_def)
      then have "nat (- i) = nat (- j)" by (rule digits_inj)
      with i True show ?thesis by simp
    next
      case False
      with i eq have "digits (nat j) = 45 # digits (nat (- i))" by (simp add: str_int_def)
      with no_minus show ?thesis by blast
    qed
  next
    case i: False
    show ?thesis
    proof (cases "j < 0")
      case True
      with i eq have "digits (nat i) = 45 # digits (nat (- j))" by (simp add: str_int_def)
      with no_minus show ?thesis by blast
    next
      case False
      with i eq have "digits (nat i) = digits (nat j)" by (simp add: str_int_def)
      then have "nat i = nat j" by (rule digits_inj)
      with i False show ?thesis by simp
    qed
  qed
qed

lemma version_tag_inj: "version_tag major minor j = version_tag major minor k \<Longrightarrow> j = k"
  by (simp add: version_tag_def str_int_inj)

section \<open>The negotiator finds the smallest free patch number\<close>

lemma nfv_found:
  assumes "patch < k"
    and "\<not> tag_exists (version_tag major minor k)"
    and "\<forall>j. patch < j \<and> j < k \<longrightarrow> tag_exists (version_tag major minor j)"
  shows "next_free_version tag_exists major minor patch = Some (version_tag major minor k)"
  using assms
proof (induction "nat (k - patch)" arbitrary: patch)
  case 0
  then show ?case by simp
next
  case (Suc n)
  show ?case
  proof (cases "k = patch + 1")
    case True
    with Suc.prems show ?thesis
      by (subst next_free_version.simps) simp
  next
    case False
    with Suc.prems have lt: "patch + 1 < k" by simp
    with Suc.prems have ex: "tag_exists (version_tag major minor (patch + 1))" by simp
    from Suc.hyps(2) have n: "n = nat (k - (patch + 1))" by simp
    have "next_free_version tag_exists major minor (patch + 1)
            = Some (version_tag major minor k)"
      using Suc.hyps(1) [OF n lt Suc.prems(2)] Suc.prems(3) by simp
    with ex show ?thesis
      by (subst next_free_version.simps) simp
  qed
qed

lemma free_candidate_exists:
  assumes "finite used"
  shows "\<exists>k. patch < k \<and> k \<le> patch + 1 + int (card used)
            \<and> version_tag major minor k \<notin> used
            \<and> (\<forall>j. patch < j \<and> j < k \<longrightarrow> version_tag major minor j \<in> used)"
proof -
  let ?f = "\<lambda>i::nat. version_tag major minor (patch + 1 + int i)"
  have inj: "inj_on ?f {..card used}"
    by (rule inj_onI) (auto dest: version_tag_inj)
  have "\<exists>i \<le> card used. ?f i \<notin> used"
  proof (rule ccontr)
    assume "\<not> ?thesis"
    then have "?f ` {..card used} \<subseteq> used" by auto
    with assms have "card (?f ` {..card used}) \<le> card used" by (simp add: card_mono)
    with inj show False by (simp add: card_image)
  qed
  then obtain i where i: "i \<le> card used" "?f i \<notin> used" by blast
  define m where "m = (LEAST i. ?f i \<notin> used)"
  have m1: "?f m \<notin> used" unfolding m_def using i(2) by (rule LeastI)
  have m2: "m \<le> i" unfolding m_def using i(2) by (rule Least_le)
  have m3: "?f l \<in> used" if "l < m" for l
    using that not_less_Least unfolding m_def by blast
  have "\<forall>j. patch < j \<and> j < patch + 1 + int m \<longrightarrow> version_tag major minor j \<in> used"
  proof (intro allI impI)
    fix j assume j: "patch < j \<and> j < patch + 1 + int m"
    then have "nat (j - patch - 1) < m" by linarith
    then have "?f (nat (j - patch - 1)) \<in> used" by (rule m3)
    moreover from j have "patch + 1 + int (nat (j - patch - 1)) = j" by linarith
    ultimately show "version_tag major minor j \<in> used" by simp
  qed
  with m1 m2 i(1) show ?thesis
    by (intro exI [of _ "patch + 1 + int m"]) simp
qed

text \<open>
  C1. For every triple (major, minor, patch) and every finite set of used tags,
  \<open>next_free_version\<close> returns \<open>v{major}.{minor}.{k}\<close> for the smallest \<open>k > patch\<close>
  whose tag is not in the used set; major and minor are those of the input.
\<close>

theorem next_free_version_smallest_free:
  assumes "finite used"
  shows "\<exists>k. next_free_version (fake_tag_exists used) major minor patch
               = Some (version_tag major minor k)
           \<and> patch < k
           \<and> version_tag major minor k \<notin> used
           \<and> (\<forall>j. patch < j \<and> j < k \<longrightarrow> version_tag major minor j \<in> used)"
proof -
  from free_candidate_exists [OF assms, of patch major minor]
  obtain k where k: "patch < k" "version_tag major minor k \<notin> used"
      "\<forall>j. patch < j \<and> j < k \<longrightarrow> version_tag major minor j \<in> used"
    by blast
  then have "next_free_version (fake_tag_exists used) major minor patch
               = Some (version_tag major minor k)"
    by (intro nfv_found) (simp_all add: fake_tag_exists_def)
  with k show ?thesis by blast
qed

text \<open>The scenario of the repository's test: tags v1.2.3 and v1.2.4 exist, the answer is v1.2.5.\<close>

theorem next_free_version_smallest_free_witness:
  "finite {py ''v1.2.3'', py ''v1.2.4''}
   \<and> next_free_version (fake_tag_exists {py ''v1.2.3'', py ''v1.2.4''}) 1 2 3
       = Some (py ''v1.2.5'')"
proof -
  let ?used = "{py ''v1.2.3'', py ''v1.2.4''}"
  have fin: "finite ?used" by simp
  from next_free_version_smallest_free [OF fin, of 1 2 3]
  obtain k where r: "next_free_version (fake_tag_exists ?used) 1 2 3 = Some (version_tag 1 2 k)"
    and k: "3 < k" "\<forall>j. 3 < j \<and> j < k \<longrightarrow> version_tag 1 2 j \<in> ?used"
    by blast
  have v4: "version_tag 1 2 4 = py ''v1.2.4''" by code_simp
  have v5: "version_tag 1 2 5 = py ''v1.2.5''" by code_simp
  have free: "version_tag 1 2 5 \<notin> ?used" by code_simp
  have "\<not> 5 < k"
  proof
    assume "5 < k"
    then have "(3::int) < 5 \<and> 5 < k" by simp
    with k(2) have "version_tag 1 2 5 \<in> ?used" by blast
    with free show False by blast
  qed
  moreover have "k \<noteq> 4"
  proof
    assume "k = 4"
    with r have "next_free_version (fake_tag_exists ?used) 1 2 3 = Some (py ''v1.2.4'')"
      by (simp add: v4)
    moreover have "next_free_version (fake_tag_exists ?used) 1 2 3 = Some (py ''v1.2.5'')"
      by code_simp
    ultimately have "py ''v1.2.4'' = py ''v1.2.5''" by simp
    then show False by (simp add: py_def)
  qed
  ultimately have "k = 5" using k(1) by linarith
  with r v5 fin show ?thesis by simp
qed

text \<open>
  C10. For every triple and every finite set of existing tags the patch-increment loop
  returns: each iteration moves to the next patch number, every candidate it passes over
  exists, and after at most as many further iterations as there are existing tags it
  reaches a candidate outside the set, which it returns.
\<close>

theorem next_free_version_terminates:
  assumes "finite existing"
  shows "\<exists>k. next_free_version (fake_tag_exists existing) major minor patch
               = Some (version_tag major minor k)
           \<and> patch < k \<and> k \<le> patch + 1 + int (card existing)
           \<and> version_tag major minor k \<notin> existing
           \<and> (\<forall>j. patch < j \<and> j < k \<longrightarrow> version_tag major minor j \<in> existing)"
proof -
  from free_candidate_exists [OF assms, of patch major minor]
  obtain k where k: "patch < k" "k \<le> patch + 1 + int (card existing)"
      "version_tag major minor k \<notin> existing"
      "\<forall>j. patch < j \<and> j < k \<longrightarrow> version_tag major minor j \<in> existing"
    by blast
  then have "next_free_version (fake_tag_exists existing) major minor patch
               = Some (version_tag major minor k)"
    by (intro nfv_found) (simp_all add: fake_tag_exists_def)
  with k show ?thesis by blast
qed

theorem next_free_version_terminates_witness:
  "finite {py ''v0.0.1''}
   \<and> next_free_version (fake_tag_exists {py ''v0.0.1''}) 0 0 0 = Some (py ''v0.0.2'')
   \<and> py ''v0.0.2'' \<notin> {py ''v0.0.1''}"
proof -
  have fin: "finite {py ''v0.0.1''}" by simp
  have v1: "version_tag 0 0 1 = py ''v0.0.1''"
    by (simp add: version_tag_def str_int_def digits.simps py_def)
  have v2: "version_tag 0 0 2 = py ''v0.0.2''"
    by (simp add: version_tag_def str_int_def digits.simps py_def)
  from next_free_version_terminates [OF fin, of 0 0 0]
  obtain k where r: "next_free_version (fake_tag_exists {py ''v0.0.1''}) 0 0 0
      = Some (version_tag 0 0 k)"
    and k: "0 < k" "k \<le> 2" "version_tag 0 0 k \<notin> {py ''v0.0.1''}"
    by auto
  from k(3) v1 have "k \<noteq> 1" by auto
  with k(1,2) have "k = 2" by linarith
  with r v2 fin show ?thesis by (simp add: py_def)
qed

section \<open>Evaluating the string functions\<close>

lemmas str_defs = py_def strip_def lstrip_def rstrip_def isspace_def is_linebreak_def
  splitlines_def slice_to_def rsplit1_def

lemmas run_defs = git_config_def safe_def check_output_def check_call_def run_def spawn_def
  Let_def

section \<open>The default summary\<close>

text \<open>
  C8. The summary is "Initial commit" for the first commit of a repository whatever the
  number of files, else "Update project configuration" for exactly one staged file, else
  "Update N project files" with N the number of staged files.
\<close>

theorem initial_commit_msg_rule:
  "initial_commit_msg True files = py ''Initial commit''
   \<and> (length files = 1 \<longrightarrow> initial_commit_msg False files = py ''Update project configuration'')
   \<and> (length files \<noteq> 1 \<longrightarrow>
        initial_commit_msg False files
          = py ''Update '' @ str_int (int (length files)) @ py '' project files'')"
  by (simp add: initial_commit_msg_def)

theorem initial_commit_msg_rule_witness:
  "initial_commit_msg True [py ''a'', py ''b''] = py ''Initial commit''
   \<and> initial_commit_msg False [py ''setup.cfg''] = py ''Update project configuration''
   \<and> initial_commit_msg False [py ''a'', py ''b'', py ''c'', py ''d'', py ''e'']
       = py ''Update 5 project files''"
proof -
  have five: "str_int 5 = py ''5''" by code_simp
  have app: "py ''Update '' @ py ''5'' @ py '' project files'' = py ''Update 5 project files''"
    by (simp add: py_def)
  show ?thesis
    using initial_commit_msg_rule [of "[py ''a'', py ''b'']"]
      initial_commit_msg_rule [of "[py ''setup.cfg'']"]
      initial_commit_msg_rule [of "[py ''a'', py ''b'', py ''c'', py ''d'', py ''e'']"]
    by (simp add: five app)
qed

section \<open>Identity lookup\<close>

text \<open>What \<open>read_identity\<close> returns, in terms of the four answers it may ask for.\<close>

lemma read_identity_answers:
  assumes "git_config os (py ''user.name'') h = (rn, h1)"
    and "git_config os (py ''user.email'') h1 = (re, h2)"
    and "safe os (Argv [py ''git'', py ''config'', py ''--global'', py ''user.name'']) h2
           = (gn, h3)"
    and "safe os (Argv [py ''git'', py ''config'', py ''--global'', py ''user.email'']) h3
           = (ge, h4)"
  shows "fst (read_identity os h) =
           (if rn \<noteq> [] \<or> re \<noteq> [] then (rn, re, py ''repo'')
            else if gn \<noteq> [] \<or> ge \<noteq> [] then (gn, ge, py ''global'')
            else ([], [], py ''none''))"
  using assms by (simp add: read_identity_def)

lemma safe_git_config:
  "fst (safe (git_os files) (Argv [py ''git'', py ''config'', key]) h)
     = (case local_config files key of
          Some v \<Rightarrow> strip (v @ [10])
        | None \<Rightarrow> (case global_config files key of Some v \<Rightarrow> strip (v @ [10]) | None \<Rightarrow> []))"
  by (simp add: safe_def check_output_def spawn_def Let_def git_os_def print_value_def
      split: option.splits)

lemma safe_git_config_global:
  "fst (safe (git_os files) (Argv [py ''git'', py ''config'', py ''--global'', key]) h)
     = (case global_config files key of Some v \<Rightarrow> strip (v @ [10]) | None \<Rightarrow> [])"
  by (simp add: safe_def check_output_def spawn_def Let_def git_os_def print_value_def
      split: option.splits)

text \<open>
  C7. The lookup is meant to let values of the repository scope win over those of the global
  scope, and to name the scope that gave them. The code does not do so: its first two
  queries are \<open>git config user.name\<close> and \<open>git config user.email\<close> without \<open>--local\<close>, which
  git answers from the global file when the repository has no value. So on a machine
  whose repository sets neither field and whose global file sets both, \<open>read_identity\<close>
  returns the global values with provenance "repo", never reaching its \<open>--global\<close> queries.
\<close>

theorem read_identity_global_reported_as_repo:
  assumes "local_config files (py ''user.name'') = None"
    and "local_config files (py ''user.email'') = None"
    and "global_config files (py ''user.name'') = Some n"
    and "global_config files (py ''user.email'') = Some e"
    and "strip (n @ [10]) \<noteq> []"
  shows "fst (read_identity (git_os files) h)
           = (strip (n @ [10]), strip (e @ [10]), py ''repo'')"
proof -
  let ?os = "git_os files"
  obtain rn h1 where 1: "git_config ?os (py ''user.name'') h = (rn, h1)" by (meson surj_pair)
  obtain re h2 where 2: "git_config ?os (py ''user.email'') h1 = (re, h2)" by (meson surj_pair)
  obtain gn h3 where 3: "safe ?os (Argv [py ''git'', py ''config'', py ''--global'',
    py ''user.name'']) h2 = (gn, h3)" by (meson surj_pair)
  obtain ge h4 where 4: "safe ?os (Argv [py ''git'', py ''config'', py ''--global'',
    py ''user.email'']) h3 = (ge, h4)" by (meson surj_pair)
  from 1 assms(1,3) have rn: "rn = strip (n @ [10])"
    using safe_git_config [of files "py ''user.name''" h] by (simp add: git_config_def)
  from 2 assms(2,4) have re: "re = strip (e @ [10])"
    using safe_git_config [of files "py ''user.email''" h1] by (simp add: git_config_def)
  from read_identity_answers [OF 1 2 3 4] rn re assms(5) show ?thesis by simp
qed

theorem read_identity_global_reported_as_repo_witness:
  "local_config global_only (py ''user.name'') = None
   \<and> local_config global_only (py ''user.email'') = None
   \<and> fst (read_identity (git_os global_only) [])
       = (py ''Ann'', py ''ann@example.org'', py ''repo'')"
proof -
  have a: "local_config global_only (py ''user.name'') = None"
    "local_config global_only (py ''user.email'') = None"
    by (simp_all add: global_only_def)
  have b: "global_config global_only (py ''user.name'') = Some (py ''Ann'')"
    "global_config global_only (py ''user.email'') = Some (py ''ann@example.org'')"
    by (simp_all add: global_only_def py_def)
  have s: "strip (py ''Ann'' @ [10]) = py ''Ann''"
    "strip (py ''ann@example.org'' @ [10]) = py ''ann@example.org''"
    by (simp_all add: str_defs)
  have n: "py ''Ann'' \<noteq> []" by (simp add: py_def)
  from read_identity_global_reported_as_repo [OF a b, of "[]"] s n a show ?thesis by simp
qed

section \<open>AI refinement\<close>

lemma generate_message_cases:
  "(\<exists>p out err. launch = Popen_returns p \<and> communicate p = Inr (out, err) \<and> strip out \<noteq> []
        \<and> generate_message commit_msg timeout launch
            = Inr (enforce_summary_limit (strip out) 72, None))
   \<or> (\<exists>reason. generate_message commit_msg timeout launch = Inr (commit_msg, Some reason))"
proof (cases launch)
  case (Popen_raises e)
  then show ?thesis by (simp add: generate_message_def generate_message_try_def)
next
  case (Popen_returns p)
  show ?thesis
  proof (cases "wait_with_countdown p timeout")
    case (Inl e)
    with Popen_returns show ?thesis
      by (simp add: generate_message_def generate_message_try_def)
  next
    case (Inr completed)
    show ?thesis
    proof (cases completed)
      case False
      with Popen_returns Inr show ?thesis
        by (cases "kill p") (simp_all add: generate_message_def generate_message_try_def)
    next
      case True
      show ?thesis
      proof (cases "communicate p")
        case (Inl e)
        with Popen_returns Inr True show ?thesis
          by (simp add: generate_message_def generate_message_try_def)
      next
        case c: (Inr r)
        obtain out err where r: "r = (out, err)" by (cases r)
        with Popen_returns Inr True c show ?thesis
          by (cases "strip out = []") (simp_all add: generate_message_def generate_message_try_def)
      qed
    qed
  qed
qed

lemma generate_ai_commit_message_cases:
  "(\<exists>p out errout printed. launch = Popen_returns p \<and> communicate p = Inr (out, errout)
        \<and> generate_ai_commit_message lower launch = Inr (Some (strip out), printed))
   \<or> (\<exists>printed. generate_ai_commit_message lower launch = Inr (None, printed) \<and> printed \<noteq> [])"
proof (cases launch)
  case (Popen_raises e)
  then show ?thesis
    by (cases e) (simp_all add: generate_ai_commit_message_def generate_ai_commit_message_try_def)
next
  case (Popen_returns p)
  show ?thesis
  proof (cases "communicate p")
    case (Inl e)
    with Popen_returns show ?thesis
      by (cases e) (simp_all add: generate_ai_commit_message_def generate_ai_commit_message_try_def)
  next
    case (Inr r)
    obtain out errout where r: "r = (out, errout)" by (cases r)
    with Popen_returns Inr show ?thesis
      by (simp add: generate_ai_commit_message_def generate_ai_commit_message_try_def Let_def)
  qed
qed

text \<open>
  C4. Whatever the \<open>llm\<close> subprocess does (it cannot be started, it runs past the
  timeout, it fails while its output is read, it prints nothing, it prints a refusal), no
  exception leaves the AI refinement: \<open>generate_message\<close> returns the normalized output
  with no warning, or the prior draft with a reason; \<open>generate_ai_commit_message\<close> returns
  the stripped output, or \<open>None\<close> after printing a warning.
\<close>

theorem ai_refinement_never_raises:
  "((\<exists>p out err. launch = Popen_returns p \<and> communicate p = Inr (out, err) \<and> strip out \<noteq> []
        \<and> generate_message commit_msg timeout launch
            = Inr (enforce_summary_limit (strip out) 72, None))
    \<or> (\<exists>reason. generate_message commit_msg timeout launch = Inr (commit_msg, Some reason)))
   \<and> ((\<exists>p out errout printed. launch = Popen_returns p \<and> communicate p = Inr (out, errout)
        \<and> generate_ai_commit_message lower launch = Inr (Some (strip out), printed))
    \<or> (\<exists>printed. generate_ai_commit_message lower launch = Inr (None, printed)
          \<and> printed \<noteq> []))"
  using generate_message_cases generate_ai_commit_message_cases by blast


theorem ai_refinement_never_raises_witness:
  "generate_message (py ''Initial commit'') 12 (Popen_returns hung)
     = Inr (py ''Initial commit'', Some (py ''AI request timed out''))
   \<and> generate_ai_commit_message lower_ascii (Popen_returns hung) = Inr (None, [warn_timeout])"
proof -
  have a: "generate_message (py ''Initial commit'') 12 (Popen_returns hung)
     = Inr (py ''Initial commit'', Some (py ''AI request timed out''))"
    by (simp add: generate_message_def generate_message_try_def wait_with_countdown_def
        countdown.simps hung_def)
  have b: "generate_ai_commit_message lower_ascii (Popen_returns hung)
     = Inr (None, [warn_timeout])"
    by (simp add: generate_ai_commit_message_def generate_ai_commit_message_try_def hung_def)
  from ai_refinement_never_raises [of "Popen_returns hung" "py ''Initial commit''" 12 lower_ascii]
    a b show ?thesis by simp
qed

lemma countdown_exited:
  "0 < timeout \<Longrightarrow> poll p 0 = Inr True \<Longrightarrow> wait_with_countdown p timeout = Inr True"
  by (simp add: wait_with_countdown_def countdown.simps)

lemma strip_fix: "strip (py ''fix'' @ [10]) = py ''fix''"
  by (simp add: str_defs)

lemma enforce_fix: "enforce_summary_limit (py ''fix'') 72 = py ''fix''"
  by (simp add: enforce_summary_limit_def str_defs)

text \<open>
  C5, as the claim states it, fails for \<open>generate_message\<close>: the three-character answer
  "fix" becomes the new draft.
\<close>

theorem short_response_accepted_counterexample:
  "length (strip (py ''fix'' @ [10])) < 10
   \<and> generate_message (py ''Update 2 project files'') 12
        (Popen_returns (answers (py ''fix'' @ [10]) []))
       = Inr (py ''fix'', None)"
proof -
  have w: "wait_with_countdown (answers (py ''fix'' @ [10]) []) 12 = Inr True"
    by (rule countdown_exited) (simp_all add: answers_def)
  have c: "communicate (answers (py ''fix'' @ [10]) []) = Inr (py ''fix'' @ [10], [])"
    by (simp add: answers_def)
  have n: "py ''fix'' \<noteq> []" "length (py ''fix'') < 10" by (simp_all add: py_def)
  show ?thesis
    by (simp add: generate_message_def generate_message_try_def w c strip_fix enforce_fix n)
qed

text \<open>
  C5, amended. \<open>generate_ai_commit_message\<close> rejects every answer whose stripped text is
  shorter than 10 characters: it returns \<open>None\<close> and prints the warning for an empty or
  too small output. \<open>generate_message\<close> rejects an answer only when its stripped text is
  empty, keeping the draft with the stripped stderr, or "AI returned empty output", as the
  reason; any other answer that arrives in time is normalized and becomes the draft.
\<close>

theorem short_response_rejected:
  "(communicate p = Inr (out, errout) \<and> length (strip out) < 10 \<longrightarrow>
      generate_ai_commit_message lower (Popen_returns p)
        = Inr (None, (if errout \<noteq> [] then [py ''[AI stderr] '' @ errout] else [])
                     @ [warn_too_small]))
   \<and> (communicate p = Inr (out, err) \<and> wait_with_countdown p timeout = Inr True
        \<and> strip out = [] \<longrightarrow>
      generate_message commit_msg timeout (Popen_returns p)
        = Inr (commit_msg, Some (if strip err \<noteq> [] then strip err
                                 else py ''AI returned empty output'')))
   \<and> (communicate p = Inr (out, err) \<and> wait_with_countdown p timeout = Inr True
        \<and> strip out \<noteq> [] \<longrightarrow>
      generate_message commit_msg timeout (Popen_returns p)
        = Inr (enforce_summary_limit (strip out) 72, None))"
  by (simp add: generate_ai_commit_message_def generate_ai_commit_message_try_def
      generate_message_def generate_message_try_def Let_def DEBUG_AI_def)

theorem short_response_rejected_witness:
  "generate_ai_commit_message lower_ascii (Popen_returns (answers (py ''fix'' @ [10]) []))
     = Inr (None, [warn_too_small])
   \<and> generate_message (py ''Initial commit'') 12 (Popen_returns (answers [32, 10] []))
     = Inr (py ''Initial commit'', Some (py ''AI returned empty output''))
   \<and> generate_message (py ''Initial commit'') 12 (Popen_returns (answers (py ''fix'' @ [10]) []))
     = Inr (py ''fix'', None)"
proof -
  let ?p = "answers (py ''fix'' @ [10]) []"
  let ?q = "answers [32, 10] []"
  have c1: "communicate ?p = Inr (py ''fix'' @ [10], [])" by (simp add: answers_def)
  have c2: "communicate ?q = Inr ([32, 10], [])" by (simp add: answers_def)
  have s2: "strip [32, 10] = []" by (simp add: str_defs)
  have s3: "strip [] = []" by (simp add: str_defs)
  have w1: "wait_with_countdown ?p 12 = Inr True"
    by (rule countdown_exited) (simp_all add: answers_def)
  have w2: "wait_with_countdown ?q 12 = Inr True"
    by (rule countdown_exited) (simp_all add: answers_def)
  have l: "length (py ''fix'') < 10" "py ''fix'' \<noteq> []" by (simp_all add: py_def)
  from short_response_rejected [of ?p "py ''fix'' @ [10]" "[]" lower_ascii "[]" 12
      "py ''Initial commit''"] c1 strip_fix l w1 enforce_fix
  have a: "generate_ai_commit_message lower_ascii (Popen_returns ?p)
             = Inr (None, [warn_too_small])"
    and b: "generate_message (py ''Initial commit'') 12 (Popen_returns ?p)
             = Inr (py ''fix'', None)"
    by simp_all
  from short_response_rejected [of ?q "[32, 10]" "[]" lower_ascii "[]" 12
      "py ''Initial commit''"] c2 s2 s3 w2
  have c: "generate_message (py ''Initial commit'') 12 (Popen_returns ?q)
     = Inr (py ''Initial commit'', Some (py ''AI returned empty output''))"
    by simp
  from a b c show ?thesis by simp
qed

section \<open>Nothing staged\<close>

lemma safe_history: "snd (safe os cmd h) = h @ [(cmd, os h cmd)]"
  by (simp add: safe_def check_output_def spawn_def Let_def split: proc.splits)

lemma run_history: "snd (run os cmd h) = h @ [(cmd, os h cmd)]"
  by (simp add: run_def check_call_def spawn_def Let_def split: proc.splits)

lemma git_config_history:
  "snd (git_config os key h) = h @ [(Argv [py ''git'', py ''config'', key], os h (Argv [py ''git'', py ''config'', key]))]"
  by (simp add: git_config_def safe_history)

text \<open>A stretch of a run that only asks git questions.\<close>

lemma safe_quiet:
  assumes "\<not> releases cmd"
  shows "\<exists>xs. snd (safe os cmd h) = h @ xs \<and> (\<forall>c \<in> set (map fst xs). \<not> releases c)"
  using assms by (simp add: safe_history)

lemma quiet_trans:
  assumes "\<exists>xs. h1 = h @ xs \<and> (\<forall>c \<in> set (map fst xs). \<not> releases c)"
    and "\<exists>ys. h2 = h1 @ ys \<and> (\<forall>c \<in> set (map fst ys). \<not> releases c)"
  shows "\<exists>zs. h2 = h @ zs \<and> (\<forall>c \<in> set (map fst zs). \<not> releases c)"
proof -
  from assms obtain xs ys where "h1 = h @ xs" "h2 = h1 @ ys"
    "\<forall>c \<in> set (map fst xs). \<not> releases c" "\<forall>c \<in> set (map fst ys). \<not> releases c" by blast
  then have "h2 = h @ (xs @ ys) \<and> (\<forall>c \<in> set (map fst (xs @ ys)). \<not> releases c)" by auto
  then show ?thesis by blast
qed

lemma not_releases_config: "\<not> releases (Argv (py ''git'' # py ''config'' # rest))"
  by (simp add: releases_def py_def)

lemma read_identity_quiet:
  "\<exists>xs. snd (read_identity os h) = h @ xs \<and> (\<forall>c \<in> set (map fst xs). \<not> releases c)"
proof -
  let ?n = "Argv [py ''git'', py ''config'', py ''user.name'']"
  let ?e = "Argv [py ''git'', py ''config'', py ''user.email'']"
  let ?gn = "Argv [py ''git'', py ''config'', py ''--global'', py ''user.name'']"
  let ?ge = "Argv [py ''git'', py ''config'', py ''--global'', py ''user.email'']"
  obtain n h1 where 1: "safe os ?n h = (n, h1)" by (meson surj_pair)
  obtain e h2 where 2: "safe os ?e h1 = (e, h2)" by (meson surj_pair)
  obtain gn h3 where 3: "safe os ?gn h2 = (gn, h3)" by (meson surj_pair)
  obtain ge h4 where 4: "safe os ?ge h3 = (ge, h4)" by (meson surj_pair)
  have r: "\<not> releases ?n" "\<not> releases ?e" "\<not> releases ?gn" "\<not> releases ?ge"
    by (rule not_releases_config)+
  have q1: "\<exists>xs. h1 = h @ xs \<and> (\<forall>c \<in> set (map fst xs). \<not> releases c)"
    using safe_quiet [OF r(1), of os h] 1 by simp
  have q2: "\<exists>xs. h2 = h1 @ xs \<and> (\<forall>c \<in> set (map fst xs). \<not> releases c)"
    using safe_quiet [OF r(2), of os h1] 2 by simp
  have q3: "\<exists>xs. h3 = h2 @ xs \<and> (\<forall>c \<in> set (map fst xs). \<not> releases c)"
    using safe_quiet [OF r(3), of os h2] 3 by simp
  have q4: "\<exists>xs. h4 = h3 @ xs \<and> (\<forall>c \<in> set (map fst xs). \<not> releases c)"
    using safe_quiet [OF r(4), of os h3] 4 by simp
  have h2: "\<exists>xs. h2 = h @ xs \<and> (\<forall>c \<in> set (map fst xs). \<not> releases c)"
    by (rule quiet_trans [OF q1 q2])
  have h4: "\<exists>xs. h4 = h @ xs \<and> (\<forall>c \<in> set (map fst xs). \<not> releases c)"
    by (rule quiet_trans [OF quiet_trans [OF h2 q3] q4])
  have "snd (read_identity os h) = h2 \<or> snd (read_identity os h) = h4"
    using 1 2 3 4 by (simp add: read_identity_def git_config_def)
  with h2 h4 show ?thesis by metis
qed

lemma show_repo_dashboard_quiet:
  "\<exists>xs. show_repo_dashboard os h = h @ xs \<and> (\<forall>c \<in> set (map fst xs). \<not> releases c)"
proof -
  let ?c1 = "Argv [py ''git'', py ''config'', py ''gup.model'']"
  let ?c2 = "Argv [py ''git'', py ''config'', py ''gup.timeout'']"
  let ?c3 = "Argv [py ''git'', py ''branch'', py ''--show-current'']"
  let ?c4 = "Argv [py ''git'', py ''describe'', py ''--tags'', py ''--abbrev=0'']"
  let ?c5 = "Argv [py ''git'', py ''remote'', py ''-v'']"
  let ?c6 = "Argv [py ''git'', py ''status'', py ''--short'']"
  let ?c7 = "Argv [py ''git'', py ''log'', py ''-3'', py ''--pretty=format:%h | %ad | %s'',
                   py ''--date=short'']"
  define h0 where "h0 = snd (read_identity os h)"
  define h1 where "h1 = snd (safe os ?c1 h0)"
  define h2 where "h2 = snd (safe os ?c2 h1)"
  define h3 where "h3 = snd (safe os ?c3 h2)"
  define h4 where "h4 = snd (safe os ?c4 h3)"
  define h5 where "h5 = snd (safe os ?c5 h4)"
  define h6 where "h6 = snd (safe os ?c6 h5)"
  define h7 where "h7 = snd (safe os ?c7 h6)"
  have r: "\<not> releases ?c1" "\<not> releases ?c2" "\<not> releases ?c3" "\<not> releases ?c4"
    "\<not> releases ?c5" "\<not> releases ?c6" "\<not> releases ?c7"
    by (simp_all add: releases_def py_def)
  have eq: "show_repo_dashboard os h = h7"
    unfolding h7_def h6_def h5_def h4_def h3_def h2_def h1_def h0_def
    by (simp add: show_repo_dashboard_def git_config_def split_beta)
  note q0 = read_identity_quiet [of os h, folded h0_def]
  note q1 = quiet_trans [OF q0 safe_quiet [OF r(1), of os h0, folded h1_def]]
  note q2 = quiet_trans [OF q1 safe_quiet [OF r(2), of os h1, folded h2_def]]
  note q3 = quiet_trans [OF q2 safe_quiet [OF r(3), of os h2, folded h3_def]]
  note q4 = quiet_trans [OF q3 safe_quiet [OF r(4), of os h3, folded h4_def]]
  note q5 = quiet_trans [OF q4 safe_quiet [OF r(5), of os h4, folded h5_def]]
  note q6 = quiet_trans [OF q5 safe_quiet [OF r(6), of os h5, folded h6_def]]
  note q7 = quiet_trans [OF q6 safe_quiet [OF r(7), of os h6, folded h7_def]]
  from q7 eq show ?thesis by simp
qed

text \<open>
  C9, as the claim states it, fails for \<open>main\<close> of \<open>src/gup/__main__.py\<close>: with nothing
  staged it exits with status 0.
\<close>

theorem no_staged_changes_exit_counterexample:
  "splitlines (fst (safe quiet_os (Argv [py ''git'', py ''diff'', py ''--cached'',
                                         py ''--name-only''])
                     (snd (run quiet_os (Argv [py ''git'', py ''add'', py ''.'']) [])))) = []
   \<and> fst (stage_and_check quiet_os []) = (Exit 0, [])
   \<and> fst (fst (stage_and_check quiet_os [])) \<noteq> Exit 3"
  by (simp add: stage_and_check_def run_defs str_defs quiet_os_def)

text \<open>
  C9, amended. When staging succeeds and nothing is staged, \<open>src/gup.py\<close> exits with status
  3 having run only \<open>git add .\<close> and \<open>git diff --cached --name-only\<close>; \<open>main\<close> of
  \<open>src/gup/__main__.py\<close> exits with status 0 after the queries of the dashboard. In both,
  no command run from the staging on creates a commit, creates a tag or pushes.
\<close>

theorem no_staged_changes_exit:
  "(run os (Shell (py ''git add .'')) h = (None, h1)
      \<and> safe os (Shell (py ''git diff --cached --name-only'')) h1 = ([], h2) \<longrightarrow>
        stage_and_check_gup os h = ((Exit 3, []), h2)
        \<and> commands_since h h2
            = [Shell (py ''git add .''), Shell (py ''git diff --cached --name-only'')])
   \<and> (run os (Argv [py ''git'', py ''add'', py ''.'']) h = (None, h1)
      \<and> safe os (Argv [py ''git'', py ''diff'', py ''--cached'', py ''--name-only'']) h1
            = (out, h2)
      \<and> splitlines out = [] \<longrightarrow>
        fst (stage_and_check os h) = (Exit 0, [])
        \<and> (\<forall>c \<in> set (commands_since h (snd (stage_and_check os h))). \<not> releases c))"
proof (intro conjI impI)
  assume a: "run os (Shell (py ''git add .'')) h = (None, h1)
      \<and> safe os (Shell (py ''git diff --cached --name-only'')) h1 = ([], h2)"
  then show "stage_and_check_gup os h = ((Exit 3, []), h2)"
    by (simp add: stage_and_check_gup_def)
  from a have "h1 = h @ [(Shell (py ''git add .''), os h (Shell (py ''git add .'')))]"
    using run_history [of os "Shell (py ''git add .'')" h] by simp
  moreover from a have "h2 = h1 @ [(Shell (py ''git diff --cached --name-only''),
      os h1 (Shell (py ''git diff --cached --name-only'')))]"
    using safe_history [of os "Shell (py ''git diff --cached --name-only'')" h1] by simp
  ultimately show "commands_since h h2
            = [Shell (py ''git add .''), Shell (py ''git diff --cached --name-only'')]"
    by (simp add: commands_since_def)
next
  let ?add = "Argv [py ''git'', py ''add'', py ''.'']"
  let ?diff = "Argv [py ''git'', py ''diff'', py ''--cached'', py ''--name-only'']"
  assume a: "run os ?add h = (None, h1) \<and> safe os ?diff h1 = (out, h2) \<and> splitlines out = []"
  then show "fst (stage_and_check os h) = (Exit 0, [])"
    by (simp add: stage_and_check_def)
  from a have s: "snd (stage_and_check os h) = show_repo_dashboard os h2"
    by (simp add: stage_and_check_def)
  have r: "\<not> releases ?add" "\<not> releases ?diff" by (simp_all add: releases_def py_def)
  from a have 1: "h1 = h @ [(?add, os h ?add)]" using run_history [of os ?add h] by simp
  from a have 2: "h2 = h1 @ [(?diff, os h1 ?diff)]" using safe_history [of os ?diff h1] by simp
  from show_repo_dashboard_quiet [of os h2] obtain xs
    where xs: "show_repo_dashboard os h2 = h2 @ xs" "\<forall>c \<in> set (map fst xs). \<not> releases c"
    by blast
  have "snd (stage_and_check os h) = h2 @ xs" by (simp add: s xs(1))
  also have "h2 = h @ [(?add, os h ?add), (?diff, os h1 ?diff)]" by (simp add: 2) (simp add: 1)
  finally have "commands_since h (snd (stage_and_check os h)) = ?add # ?diff # map fst xs"
    by (simp add: commands_since_def)
  with r xs(2) show "\<forall>c \<in> set (commands_since h (snd (stage_and_check os h))). \<not> releases c"
    by simp
qed

theorem no_staged_changes_exit_witness:
  "stage_and_check_gup quiet_os []
     = ((Exit 3, []),
        [(Shell (py ''git add .''), Exited 0 []),
         (Shell (py ''git diff --cached --name-only''), Exited 0 [])])
   \<and> fst (stage_and_check quiet_os []) = (Exit 0, [])"
proof -
  let ?h1 = "[(Shell (py ''git add .''), Exited 0 [])]"
  let ?h2 = "[(Shell (py ''git add .''), Exited 0 []),
              (Shell (py ''git diff --cached --name-only''), Exited 0 [])]"
  let ?k1 = "[(Argv [py ''git'', py ''add'', py ''.''], Exited 0 [])]"
  let ?k2 = "[(Argv [py ''git'', py ''add'', py ''.''], Exited 0 []),
              (Argv [py ''git'', py ''diff'', py ''--cached'', py ''--name-only''],
               Exited 0 [])]"
  have a: "run quiet_os (Shell (py ''git add .'')) [] = (None, ?h1)"
    by (simp add: run_defs quiet_os_def)
  have b: "safe quiet_os (Shell (py ''git diff --cached --name-only'')) ?h1 = ([], ?h2)"
    by (simp add: run_defs str_defs quiet_os_def)
  have c: "run quiet_os (Argv [py ''git'', py ''add'', py ''.'']) [] = (None, ?k1)"
    by (simp add: run_defs quiet_os_def)
  have d: "safe quiet_os (Argv [py ''git'', py ''diff'', py ''--cached'', py ''--name-only''])
             ?k1 = ([], ?k2)"
    by (simp add: run_defs str_defs quiet_os_def)
  have e: "splitlines [] = []" by (simp add: splitlines_def)
  from no_staged_changes_exit [of quiet_os "[]" ?h1 ?h2 "[]"] a b
  have "stage_and_check_gup quiet_os [] = ((Exit 3, []), ?h2)" by blast
  moreover from no_staged_changes_exit [of quiet_os "[]" ?k1 ?k2 "[]"] c d e
  have "fst (stage_and_check quiet_os []) = (Exit 0, [])" by blast
  ultimately show ?thesis by simp
qed

section \<open>The layout of the final message\<close>

lemma splitlines_from_line:
  assumes "\<forall>c \<in> set l. \<not> is_linebreak c"
  shows "splitlines_from cur (l @ 10 # y) = (cur @ l) # splitlines_from [] y"
  using assms
proof (induction l arbitrary: cur)
  case Nil
  show ?case by (cases y) (simp_all add: is_linebreak_def)
next
  case (Cons a l)
  obtain d cs where r: "l @ 10 # y = d # cs" by (cases "l @ 10 # y") simp_all
  from Cons.prems have a: "\<not> is_linebreak a" by simp
  then have "a \<noteq> 13" by (auto simp: is_linebreak_def)
  with a have "splitlines_from cur ((a # l) @ 10 # y) = splitlines_from (cur @ [a]) (l @ 10 # y)"
    by (simp add: r)
  also have "\<dots> = ((cur @ [a]) @ l) # splitlines_from [] y"
    using Cons.prems by (intro Cons.IH) simp
  finally show ?case by simp
qed

lemma splitlines_from_append:
  "splitlines_from cur (b @ 10 # y) = splitlines_from cur (b @ [10]) @ splitlines_from [] y"
proof (induction cur b rule: splitlines_from.induct)
  case (1 cur)
  show ?case by (cases y) (simp_all add: is_linebreak_def)
next
  case (2 cur c)
  show ?case by (cases y) (simp_all add: is_linebreak_def)
next
  case (3 cur c d cs)
  then show ?case by (cases "cs @ 10 # y"; cases "cs @ [10]") auto
qed

lemma digits_chars: "c \<in> set (digits n) \<Longrightarrow> 48 \<le> c \<and> c \<le> 57"
  by (simp add: digits_ge_48 digits_le_57)

lemma str_int_no_linebreak: "c \<in> set (str_int i) \<Longrightarrow> \<not> is_linebreak c"
  by (auto simp: str_int_def is_linebreak_def dest!: digits_chars split: if_splits)

lemma version_tag_no_linebreak: "c \<in> set (version_tag a b k) \<Longrightarrow> \<not> is_linebreak c"
  by (auto simp: version_tag_def py_def dest: str_int_no_linebreak) (simp_all add: is_linebreak_def)

lemma digits_length: "n < 10 ^ w \<Longrightarrow> 0 < w \<Longrightarrow> length (digits n) \<le> w"
proof (induction n arbitrary: w rule: digits.induct)
  case (1 n)
  show ?case
  proof (cases "n < 10")
    case True
    with "1.prems" show ?thesis by (simp add: digits.simps [of n])
  next
    case False
    obtain v where w: "w = Suc v" using "1.prems"(2) by (cases w) simp_all
    from False "1.prems"(1) have "0 < v" unfolding w by (cases v) simp_all
    moreover from "1.prems"(1) have "n div 10 < 10 ^ v" unfolding w by (simp add: less_mult_imp_div_less)
    ultimately have "length (digits (n div 10)) \<le> v" using False by (intro "1.IH") simp_all
    with False show ?thesis by (simp add: digits.simps [of n] w)
  qed
qed

lemma zero_pad_length: "n < 10 ^ w \<Longrightarrow> 0 < w \<Longrightarrow> length (zero_pad w n) = w"
  using digits_length [of n w] by (simp add: zero_pad_def)

lemma zero_pad_chars: "c \<in> set (zero_pad w n) \<Longrightarrow> 48 \<le> c \<and> c \<le> 57"
  by (auto simp: zero_pad_def dest: digits_chars)

lemma has_shape_digits:
  "length cs = length ps \<Longrightarrow> \<forall>p \<in> set ps. is_letter p \<Longrightarrow> \<forall>c \<in> set cs. 48 \<le> c \<and> c \<le> 57
   \<Longrightarrow> has_shape ps cs"
  by (induction ps cs rule: has_shape.induct) simp_all

lemma has_shape_append:
  "has_shape ps cs \<Longrightarrow> has_shape qs ds \<Longrightarrow> has_shape (ps @ qs) (cs @ ds)"
  by (induction ps cs rule: has_shape.induct) simp_all

lemma has_shape_zero_pad:
  assumes "n < 10 ^ w" "0 < w" "length ps = w" "\<forall>p \<in> set ps. is_letter p"
  shows "has_shape ps (zero_pad w n)"
  using assms by (intro has_shape_digits) (simp_all add: zero_pad_length zero_pad_chars)

lemma strftime_shape:
  assumes "valid_datetime dt"
  shows "has_shape ''YYYY-MM-DD HH:MM:SS'' (strftime dt)"
proof -
  have l: "is_letter CHR ''Y''" "is_letter CHR ''M''" "is_letter CHR ''D''" "is_letter CHR ''H''"
    "is_letter CHR ''S''" by (simp_all add: is_letter_def)
  have s: "has_shape ''-'' (py ''-'')" "has_shape '' '' (py '' '')" "has_shape '':'' (py '':'')"
    by (simp_all add: py_def is_letter_def)
  from assms have b: "year dt < 10 ^ 4" "month dt < 10 ^ 2" "day dt < 10 ^ 2"
    "hour dt < 10 ^ 2" "minute dt < 10 ^ 2" "second dt < 10 ^ 2"
    by (simp_all add: valid_datetime_def)
  have y: "has_shape ''YYYY'' (zero_pad 4 (year dt))"
    by (rule has_shape_zero_pad [OF b(1)]) (simp_all add: l)
  have m: "has_shape ''MM'' (zero_pad 2 (month dt))"
    by (rule has_shape_zero_pad [OF b(2)]) (simp_all add: l)
  have d: "has_shape ''DD'' (zero_pad 2 (day dt))"
    by (rule has_shape_zero_pad [OF b(3)]) (simp_all add: l)
  have h: "has_shape ''HH'' (zero_pad 2 (hour dt))"
    by (rule has_shape_zero_pad [OF b(4)]) (simp_all add: l)
  have mi: "has_shape ''MM'' (zero_pad 2 (minute dt))"
    by (rule has_shape_zero_pad [OF b(5)]) (simp_all add: l)
  have se: "has_shape ''SS'' (zero_pad 2 (second dt))"
    by (rule has_shape_zero_pad [OF b(6)]) (simp_all add: l)
  have "has_shape (''YYYY'' @ ''-'' @ ''MM'' @ ''-'' @ ''DD'' @ '' '' @ ''HH'' @ '':'' @ ''MM''
          @ '':'' @ ''SS'') (strftime dt)"
    unfolding strftime_def
    by (intro has_shape_append y m d h mi se s)
  then show ?thesis by simp
qed

lemma strftime_no_linebreak:
  assumes "valid_datetime dt" "c \<in> set (strftime dt)"
  shows "\<not> is_linebreak c"
proof -
  from assms(2) have "(48 \<le> c \<and> c \<le> 57) \<or> c \<in> {45, 32, 58}"
    by (auto simp: strftime_def py_def dest: zero_pad_chars)
  then show ?thesis by (auto simp: is_linebreak_def)
qed

lemma py_no_linebreak_version: "c \<in> set (py ''Version: '') \<Longrightarrow> \<not> is_linebreak c"
  by (auto simp: py_def is_linebreak_def)

lemma py_no_linebreak_timestamp: "c \<in> set (py ''Timestamp: '') \<Longrightarrow> \<not> is_linebreak c"
  by (auto simp: py_def is_linebreak_def)

lemma final_msg_lines:
  assumes nV: "\<forall>c \<in> set next_version. \<not> is_linebreak c"
    and nT: "\<forall>c \<in> set ts. \<not> is_linebreak c"
  shows "splitlines (final_msg commit_msg next_version ts)
           = splitlines (commit_msg @ [10, 10])
             @ [py ''Version: '' @ next_version, py ''Timestamp: '' @ ts]"
proof -
  let ?V = "py ''Version: '' @ next_version"
  let ?T = "py ''Timestamp: '' @ ts"
  from nV have V: "\<forall>c \<in> set ?V. \<not> is_linebreak c"
    by (auto dest: py_no_linebreak_version)
  from nT have T: "\<forall>c \<in> set ?T. \<not> is_linebreak c"
    by (auto dest: py_no_linebreak_timestamp)
  have "final_msg commit_msg next_version ts
          = (commit_msg @ [10]) @ 10 # (?V @ 10 # (?T @ 10 # []))"
    by (simp add: final_msg_def)
  then have "splitlines (final_msg commit_msg next_version ts)
          = splitlines_from [] ((commit_msg @ [10]) @ [10])
            @ splitlines_from [] (?V @ 10 # (?T @ 10 # []))"
    unfolding splitlines_def
    using splitlines_from_append [of "[]" "commit_msg @ [10]" "?V @ 10 # (?T @ 10 # [])"]
    by simp
  also have "splitlines_from [] (?V @ 10 # (?T @ 10 # [])) = [?V, ?T]"
    by (simp only: splitlines_from_line [OF V] splitlines_from_line [OF T]) simp
  finally show ?thesis by (simp add: splitlines_def)
qed

lemma final_msg_gup_lines:
  assumes nV: "\<forall>c \<in> set next_version. \<not> is_linebreak c"
    and nt: "\<forall>c \<in> set title. \<not> is_linebreak c"
    and nT: "\<forall>c \<in> set timestamp. \<not> is_linebreak c"
  shows "splitlines (final_msg_gup commit_msg next_version title timestamp)
           = [py ''Version: '' @ next_version @ py '' '' @ [8212] @ py '' '' @ title,
              py ''Timestamp: '' @ timestamp, []]
             @ splitlines (commit_msg @ [10])"
proof -
  let ?V = "py ''Version: '' @ next_version @ py '' '' @ [8212] @ py '' '' @ title"
  let ?T = "py ''Timestamp: '' @ timestamp"
  have "\<forall>c \<in> set (py '' '' @ [8212] @ py '' ''). \<not> is_linebreak c"
    by (simp add: py_def is_linebreak_def)
  with nV nt have V: "\<forall>c \<in> set ?V. \<not> is_linebreak c"
    by (auto dest: py_no_linebreak_version)
  from nT have T: "\<forall>c \<in> set ?T. \<not> is_linebreak c"
    by (auto dest: py_no_linebreak_timestamp)
  have E: "\<forall>c \<in> set ([]::pystr). \<not> is_linebreak c" by simp
  have "final_msg_gup commit_msg next_version title timestamp
          = ?V @ 10 # (?T @ 10 # ([] @ 10 # (commit_msg @ [10])))"
    by (simp add: final_msg_gup_def)
  then have "splitlines (final_msg_gup commit_msg next_version title timestamp)
          = splitlines_from [] (?V @ 10 # (?T @ 10 # ([] @ 10 # (commit_msg @ [10]))))"
    by (simp only: splitlines_def)
  also have "\<dots> = [?V, ?T, []] @ splitlines_from [] (commit_msg @ [10])"
    by (simp only: splitlines_from_line [OF V] splitlines_from_line [OF T]
        splitlines_from_line [OF E]) simp
  finally show ?thesis by (simp add: splitlines_def)
qed

lemma demo_now_valid: "valid_datetime demo_now"
  by (simp add: valid_datetime_def demo_now_def)

lemma strftime_demo_now: "strftime demo_now = py ''2024-01-02 03:04:05''"
  by (simp add: strftime_def demo_now_def zero_pad_def digits.simps py_def)

lemma version_tag_011: "version_tag 0 1 1 = py ''v0.1.1''"
  by (simp add: version_tag_def str_int_def digits.simps py_def)

lemma splitlines_update: "splitlines (py ''update'' @ [10]) = [py ''update'']"
  "splitlines (py ''update'' @ [10, 10]) = [py ''update'', []]"
  by (simp_all add: str_defs)

text \<open>
  C6, as the claim states it, fails for \<open>src/gup.py\<close>: its final message starts with the
  version and timestamp lines and ends with the message body.
\<close>

theorem final_msg_gup_trailer_counterexample:
  "splitlines (final_msg_gup (py ''update'') (version_tag 0 1 1) (py ''update'')
                 (strftime demo_now))
     = [py ''Version: v0.1.1 '' @ [8212] @ py '' update'',
        py ''Timestamp: 2024-01-02 03:04:05'', [], py ''update'']
   \<and> last (splitlines (final_msg_gup (py ''update'') (version_tag 0 1 1) (py ''update'')
                  (strftime demo_now)))
       \<noteq> py ''Timestamp: '' @ strftime demo_now"
proof -
  have 1: "\<forall>c \<in> set (version_tag 0 1 1). \<not> is_linebreak c"
    by (auto dest: version_tag_no_linebreak)
  have 2: "\<forall>c \<in> set (py ''update''). \<not> is_linebreak c"
    by (simp add: py_def is_linebreak_def)
  have 3: "\<forall>c \<in> set (strftime demo_now). \<not> is_linebreak c"
    using demo_now_valid by (auto dest: strftime_no_linebreak)
  show ?thesis
    by (simp add: final_msg_gup_lines [OF 1 2 3] splitlines_update)
      (simp add: strftime_demo_now version_tag_011 py_def)
qed

text \<open>
  C6, amended. In \<open>src/gup/__main__.py\<close> the final message is the message body, an empty
  line, the line \<open>Version: <tag>\<close> and, last, the line \<open>Timestamp: <YYYY-MM-DD HH:MM:SS>\<close>.
  In \<open>src/gup.py\<close> the final message instead begins with the line
  \<open>Version: <tag> \<emdash> <title>\<close> and the line \<open>Timestamp: <YYYY-MM-DD HH:MM:SS>\<close>, followed
  by an empty line and the message body.
\<close>

theorem final_msg_layout:
  "(valid_datetime dt \<longrightarrow>
      splitlines (final_msg commit_msg (version_tag major minor k) (strftime dt))
        = splitlines (commit_msg @ [10, 10])
          @ [py ''Version: '' @ version_tag major minor k, py ''Timestamp: '' @ strftime dt]
      \<and> has_shape ''YYYY-MM-DD HH:MM:SS'' (strftime dt))
   \<and> (valid_datetime dt \<and> (\<forall>c \<in> set title. \<not> is_linebreak c) \<longrightarrow>
      splitlines (final_msg_gup commit_msg (version_tag major minor k) title (strftime dt))
        = [py ''Version: '' @ version_tag major minor k @ py '' '' @ [8212] @ py '' '' @ title,
           py ''Timestamp: '' @ strftime dt, []]
          @ splitlines (commit_msg @ [10]))"
proof -
  have v: "\<forall>c \<in> set (version_tag major minor k). \<not> is_linebreak c"
    by (auto dest: version_tag_no_linebreak)
  have t: "\<forall>c \<in> set (strftime dt). \<not> is_linebreak c" if "valid_datetime dt"
    using that by (auto dest: strftime_no_linebreak)
  show ?thesis
    using final_msg_lines [OF v t] final_msg_gup_lines [OF v _ t] strftime_shape [of dt]
    by blast
qed

theorem final_msg_layout_witness:
  "splitlines (final_msg (py ''update'') (version_tag 0 1 1) (strftime demo_now))
     = [py ''update'', [], py ''Version: v0.1.1'', py ''Timestamp: 2024-01-02 03:04:05'']
   \<and> has_shape ''YYYY-MM-DD HH:MM:SS'' (py ''2024-01-02 03:04:05'')"
proof -
  have "\<forall>c \<in> set (py ''update''). \<not> is_linebreak c"
    by (simp add: py_def is_linebreak_def)
  with final_msg_layout [of demo_now "py ''update''" 0 1 1 "py ''update''"] demo_now_valid
  have "splitlines (final_msg (py ''update'') (version_tag 0 1 1) (strftime demo_now))
        = splitlines (py ''update'' @ [10, 10])
          @ [py ''Version: '' @ version_tag 0 1 1, py ''Timestamp: '' @ strftime demo_now]"
    and "has_shape ''YYYY-MM-DD HH:MM:SS'' (strftime demo_now)"
    by blast+
  then show ?thesis
    by (simp add: splitlines_update strftime_demo_now version_tag_011) (simp add: py_def)
qed

section \<open>Facts about the string methods\<close>

subsection \<open>strip\<close>

lemma linebreak_isspace: "is_linebreak c \<Longrightarrow> isspace c"
  by (auto simp: is_linebreak_def isspace_def)

lemma lstrip_id: "x = [] \<or> \<not> isspace (hd x) \<Longrightarrow> lstrip x = x"
  by (cases x) (simp_all add: lstrip_def)

lemma rstrip_decomp: "\<exists>z. x = rstrip x @ z \<and> (\<forall>c \<in> set z. isspace c)"
proof -
  have "rev (takeWhile isspace (rev x) @ dropWhile isspace (rev x)) = x"
    by (simp only: takeWhile_dropWhile_id rev_rev_ident)
  then have "x = rstrip x @ rev (takeWhile isspace (rev x))"
    by (simp only: rev_append rstrip_def)
  moreover have "\<forall>c \<in> set (rev (takeWhile isspace (rev x))). isspace c"
    by (auto dest: set_takeWhileD)
  ultimately show ?thesis by blast
qed

lemma rstrip_id: "x = [] \<or> \<not> isspace (last x) \<Longrightarrow> rstrip x = x"
  by (cases x rule: rev_cases) (simp_all add: rstrip_def)

lemma strip_id: "x \<noteq> [] \<Longrightarrow> \<not> isspace (hd x) \<Longrightarrow> \<not> isspace (last x) \<Longrightarrow> strip x = x"
  by (simp add: strip_def lstrip_id rstrip_id)

lemma lstrip_hd: "lstrip x \<noteq> [] \<Longrightarrow> \<not> isspace (hd (lstrip x))"
  by (simp add: lstrip_def hd_dropWhile)

lemma rstrip_last: "rstrip x \<noteq> [] \<Longrightarrow> \<not> isspace (last (rstrip x))"
  by (simp add: rstrip_def last_rev hd_dropWhile)

lemma rstrip_hd:
  assumes "x \<noteq> []" "\<not> isspace (hd x)"
  shows "rstrip x \<noteq> [] \<and> hd (rstrip x) = hd x"
proof -
  from rstrip_decomp [of x] obtain z where z: "x = rstrip x @ z" "\<forall>c \<in> set z. isspace c"
    by blast
  have "rstrip x \<noteq> []"
  proof
    assume "rstrip x = []"
    with z(1) have "x = z" by simp
    with assms z(2) show False by (cases x) auto
  qed
  moreover from this z(1) have "hd x = hd (rstrip x)" by (metis hd_append2)
  ultimately show ?thesis by simp
qed

lemma strip_hd: "strip x \<noteq> [] \<Longrightarrow> \<not> isspace (hd (strip x))"
proof -
  assume a: "strip x \<noteq> []"
  then have "lstrip x \<noteq> []" by (auto simp: strip_def rstrip_def)
  then have "\<not> isspace (hd (lstrip x))" by (rule lstrip_hd)
  with \<open>lstrip x \<noteq> []\<close> show ?thesis using rstrip_hd [of "lstrip x"] by (simp add: strip_def)
qed

lemma strip_last: "strip x \<noteq> [] \<Longrightarrow> \<not> isspace (last (strip x))"
  by (simp add: strip_def rstrip_last)

lemma strip_strip: "strip (strip x) = strip x"
proof (cases "strip x = []")
  case True
  have "strip [] = []" by (simp add: strip_def lstrip_def rstrip_def)
  with True show ?thesis by simp
next
  case False
  then show ?thesis by (intro strip_id strip_hd strip_last)
qed

lemma strip_prefix_of_nonspace_head:
  assumes "x \<noteq> []" "\<not> isspace (hd x)"
  shows "\<exists>z. x = strip x @ z"
  using assms rstrip_decomp [of x] by (auto simp: strip_def lstrip_id)

subsection \<open>splitlines\<close>

lemma splitlines_from_hd:
  "splitlines_from cur x = l # ls \<Longrightarrow> l = cur @ takeWhile (\<lambda>c. \<not> is_linebreak c) x"
proof (induction cur x arbitrary: l ls rule: splitlines_from.induct)
  case (1 cur)
  then show ?case by (auto split: if_splits)
next
  case (2 cur c)
  then show ?case by (auto split: if_splits)
next
  case (3 cur c d cs)
  show ?case
  proof (cases "is_linebreak c")
    case True
    with "3.prems" show ?thesis by (auto split: if_splits)
  next
    case False
    then have "c \<noteq> 13" by (auto simp: is_linebreak_def)
    with False "3.prems" have "splitlines_from (cur @ [c]) (d # cs) = l # ls" by simp
    with False \<open>c \<noteq> 13\<close> have "l = (cur @ [c]) @ takeWhile (\<lambda>c. \<not> is_linebreak c) (d # cs)"
      by (intro "3.IH"(3)) simp_all
    with False show ?thesis by simp
  qed
qed

lemma splitlines_from_Nil: "splitlines_from cur x = [] \<longleftrightarrow> cur = [] \<and> x = []"
  by (induction cur x rule: splitlines_from.induct) auto

lemma splitlines_hd: "splitlines x = l # ls \<Longrightarrow> l = takeWhile (\<lambda>c. \<not> is_linebreak c) x"
  using splitlines_from_hd [of "[]" x l ls] by (simp add: splitlines_def)

lemma splitlines_Nil: "splitlines x = [] \<longleftrightarrow> x = []"
  by (simp add: splitlines_def splitlines_from_Nil)

lemma takeWhile_prefix_length:
  "length (takeWhile P xs) \<le> length (takeWhile P (xs @ ys))"
  by (induction xs) auto

lemma join_Cons: "join sep (l # ls) = l @ (if ls = [] then [] else sep @ join sep ls)"
  by (cases ls) simp_all

subsection \<open>Cutting back to the last space\<close>

lemma rsplit1_hd:
  assumes "sep \<in> set x"
  shows "\<exists>q. x = hd (rsplit1 sep x) @ sep # q \<and> sep \<notin> set q"
proof -
  let ?tw = "takeWhile (\<lambda>c. c \<noteq> sep) (rev x)"
  let ?dw = "dropWhile (\<lambda>c. c \<noteq> sep) (rev x)"
  from assms have ne: "?dw \<noteq> []" by (simp add: dropWhile_eq_Nil_conv)
  then have "hd ?dw = sep" using hd_dropWhile [of "\<lambda>c. c \<noteq> sep" "rev x"] by simp
  with ne have dw: "?dw = sep # tl ?dw" by (cases ?dw) simp_all
  have "rev x = ?tw @ ?dw" by simp
  then have "rev x = ?tw @ sep # tl ?dw" using dw by simp
  then have "rev (rev x) = rev (?tw @ sep # tl ?dw)" by (rule arg_cong)
  then have "x = rev (tl ?dw) @ sep # rev ?tw" by simp
  moreover have "sep \<notin> set (rev ?tw)" by (auto dest: set_takeWhileD)
  moreover have "hd (rsplit1 sep x) = rev (tl ?dw)" using assms by (simp add: rsplit1_def)
  ultimately show ?thesis by metis
qed

lemma cut_back:
  fixes c0 :: pystr
  defines "kept \<equiv> (if 32 \<in> set c0 then hd (rsplit1 32 c0) else c0)"
  shows "\<exists>z. c0 = kept @ z \<and> (32 \<in> set c0 \<longrightarrow> (\<exists>q. z = 32 # q))
           \<and> (32 \<notin> set c0 \<longrightarrow> z = [])"
proof (cases "32 \<in> set c0")
  case True
  from rsplit1_hd [OF True] obtain q where "c0 = hd (rsplit1 32 c0) @ 32 # q" by blast
  with True show ?thesis unfolding kept_def by auto
next
  case False
  then show ?thesis unfolding kept_def by simp
qed

section \<open>The message normalizers\<close>

subsection \<open>The first line of a stripped text\<close>

lemma first_of_stripped:
  assumes "splitlines (strip msg) = s # rest"
  shows "s = takeWhile (\<lambda>c. \<not> is_linebreak c) (strip msg)"
    and "\<forall>c \<in> set s. \<not> is_linebreak c"
    and "s \<noteq> [] \<Longrightarrow> \<not> isspace (hd s)"
proof -
  show s: "s = takeWhile (\<lambda>c. \<not> is_linebreak c) (strip msg)"
    using assms by (rule splitlines_hd)
  then show "\<forall>c \<in> set s. \<not> is_linebreak c" by (auto dest: set_takeWhileD)
  assume "s \<noteq> []"
  with s have "strip msg \<noteq> []" and "hd s = hd (strip msg)"
    by (cases "strip msg"; auto split: if_splits)+
  then show "\<not> isspace (hd s)" by (simp add: strip_hd)
qed

lemma takeWhile_line:
  assumes "\<forall>c \<in> set l. \<not> is_linebreak c"
  shows "takeWhile (\<lambda>c. \<not> is_linebreak c) (join [10] (l # ls)) = l"
proof -
  have "is_linebreak 10" by (simp add: is_linebreak_def)
  with assms show ?thesis by (simp add: join_Cons takeWhile_append2)
qed

subsection \<open>What \<open>enforce_summary_limit\<close> keeps of an over-long first line\<close>

lemma kept_of_long_line:
  fixes s :: pystr
  assumes long: "limit < int (length s)" and pos: "0 < limit" and hd: "\<not> isspace (hd s)"
  defines "c0 \<equiv> slice_to s limit"
  defines "kept \<equiv> (if 32 \<in> set c0 then hd (rsplit1 32 c0) else c0)"
  shows "\<exists>z. s = kept @ z \<and> kept \<noteq> [] \<and> int (length kept) \<le> limit \<and> hd kept = hd s
           \<and> (32 \<in> set c0 \<longrightarrow> (\<exists>q. z = 32 # q) \<and> int (length kept) < limit)
           \<and> (32 \<notin> set c0 \<longrightarrow> kept = c0)"
    and "c0 = take (nat limit) s"
proof -
  show c0: "c0 = take (nat limit) s" using pos by (simp add: c0_def slice_to_def)
  from long pos have ne: "c0 \<noteq> []" and len: "length c0 = nat limit" and h0: "hd c0 = hd s"
    unfolding c0 by (cases s; auto simp: nat_less_iff)+
  from cut_back [of c0] obtain z0 where z0: "c0 = kept @ z0"
    "32 \<in> set c0 \<longrightarrow> (\<exists>q. z0 = 32 # q)" "32 \<notin> set c0 \<longrightarrow> z0 = []"
    unfolding kept_def by blast
  have sp: "isspace 32" by (simp add: isspace_def)
  have k: "kept \<noteq> []"
  proof
    assume "kept = []"
    with z0 ne have "hd c0 = 32" by (cases "32 \<in> set c0") auto
    with h0 hd sp show False by simp
  qed
  have "s = c0 @ drop (nat limit) s" unfolding c0 by simp
  then have s: "s = kept @ (z0 @ drop (nat limit) s)" using z0(1) by simp
  from z0(1) k h0 have hk: "hd kept = hd s" by (metis hd_append2)
  have l1: "int (length kept) \<le> limit"
  proof -
    from z0(1) have "length c0 = length kept + length z0" by simp
    with len pos show ?thesis by linarith
  qed
  have l2: "int (length kept) < limit" if "32 \<in> set c0"
  proof -
    from that z0(2) obtain q where "z0 = 32 # q" by blast
    with z0(1) have "length c0 = length kept + Suc (length q)" by simp
    with len pos show ?thesis by linarith
  qed
  from z0(2) have z: "32 \<in> set c0 \<longrightarrow> (\<exists>q. z0 @ drop (nat limit) s = 32 # q)" by auto
  from z0(1) z0(3) have e: "32 \<notin> set c0 \<longrightarrow> kept = c0" by simp
  from s k l1 hk z l2 e
  show "\<exists>z. s = kept @ z \<and> kept \<noteq> [] \<and> int (length kept) \<le> limit \<and> hd kept = hd s
           \<and> (32 \<in> set c0 \<longrightarrow> (\<exists>q. z = 32 # q) \<and> int (length kept) < limit)
           \<and> (32 \<notin> set c0 \<longrightarrow> kept = c0)"
    by blast
qed

lemma enforce_cut:
  assumes lines: "splitlines (strip msg) = s # rest"
    and long: "limit < int (length s)" and pos: "0 < limit"
  shows "\<exists>kept z. enforce_summary_limit msg limit = join [10] (kept # rest)
           \<and> s = kept @ z \<and> kept \<noteq> [] \<and> int (length kept) \<le> limit
           \<and> \<not> isspace (hd kept) \<and> (\<forall>c \<in> set kept. \<not> is_linebreak c)
           \<and> (32 \<in> set (take (nat limit) s) \<longrightarrow> (\<exists>q. z = 32 # q) \<and> int (length kept) < limit)
           \<and> (32 \<notin> set (take (nat limit) s) \<longrightarrow> kept = take (nat limit) s)"
proof -
  let ?c0 = "slice_to s limit"
  let ?kept = "(if 32 \<in> set ?c0 then hd (rsplit1 32 ?c0) else ?c0)"
  from long pos have "s \<noteq> []" by auto
  with first_of_stripped [OF lines] have hd: "\<not> isspace (hd s)"
    and nl: "\<forall>c \<in> set s. \<not> is_linebreak c" by simp_all
  from kept_of_long_line [OF long pos hd]
  obtain z where z: "s = ?kept @ z" "?kept \<noteq> []" "int (length ?kept) \<le> limit"
    "hd ?kept = hd s"
    "32 \<in> set ?c0 \<longrightarrow> (\<exists>q. z = 32 # q) \<and> int (length ?kept) < limit"
    "32 \<notin> set ?c0 \<longrightarrow> ?kept = ?c0"
    and c0: "?c0 = take (nat limit) s"
    by blast
  have e: "enforce_summary_limit msg limit = join [10] (?kept # rest)"
    using lines long by (simp add: enforce_summary_limit_def Let_def)
  from z(1) nl have nk: "\<forall>c \<in> set ?kept. \<not> is_linebreak c"
    by (metis Un_iff set_append)
  from z(4) hd have hk: "\<not> isspace (hd ?kept)" by simp
  from e z(1) z(2) z(3) hk nk z(5) z(6) show ?thesis
    unfolding c0 by blast
qed

lemma enforce_result_lines:
  assumes "enforce_summary_limit msg limit = join [10] (kept # rest)"
    and "kept \<noteq> []" and "\<not> isspace (hd kept)" and "\<forall>c \<in> set kept. \<not> is_linebreak c"
  shows "\<exists>ls. splitlines (enforce_summary_limit msg limit) = kept # ls"
    and "first_line (enforce_summary_limit msg limit) = Some l \<Longrightarrow> length l \<le> length kept"
proof -
  let ?r = "enforce_summary_limit msg limit"
  let ?P = "\<lambda>c. \<not> is_linebreak c"
  from assms(1,4) have tw: "takeWhile ?P ?r = kept" by (simp only: takeWhile_line)
  from assms(1,2) have ne: "?r \<noteq> []" by (simp add: join_Cons)
  from assms(1,2) have hr: "hd ?r = hd kept" by (simp add: join_Cons)
  from ne obtain l' ls where "splitlines ?r = l' # ls"
    by (cases "splitlines ?r") (simp_all add: splitlines_Nil)
  with tw show "\<exists>ls. splitlines ?r = kept # ls" using splitlines_hd by fastforce
  assume "first_line ?r = Some l"
  then obtain ls' where "splitlines (strip ?r) = l # ls'"
    by (auto simp: first_line_def split: list.splits)
  then have l: "l = takeWhile ?P (strip ?r)" by (rule splitlines_hd)
  from ne hr assms(3) obtain z where z: "?r = strip ?r @ z"
    using strip_prefix_of_nonspace_head [of ?r] by auto
  have "length (takeWhile ?P (strip ?r)) \<le> length (takeWhile ?P (strip ?r @ z))"
    by (rule takeWhile_prefix_length)
  with z tw l show "length l \<le> length kept" by simp
qed

lemma enforce_cases:
  "(splitlines (strip msg) = [] \<and> enforce_summary_limit msg limit = msg)
   \<or> (\<exists>s rest. splitlines (strip msg) = s # rest \<and> int (length s) \<le> limit
         \<and> enforce_summary_limit msg limit = msg)
   \<or> (\<exists>s rest. splitlines (strip msg) = s # rest \<and> limit < int (length s))"
  by (cases "splitlines (strip msg)") (auto simp: enforce_summary_limit_def)

lemma enforce_first_line_bound:
  assumes pos: "0 < limit" and fl: "first_line (enforce_summary_limit msg limit) = Some l"
  shows "int (length l) \<le> limit"
proof -
  consider (empty) "splitlines (strip msg) = []" "enforce_summary_limit msg limit = msg"
    | (fits) s rest where "splitlines (strip msg) = s # rest" "int (length s) \<le> limit"
        "enforce_summary_limit msg limit = msg"
    | (long) s rest where "splitlines (strip msg) = s # rest" "limit < int (length s)"
    using enforce_cases [of msg limit] by blast
  then show ?thesis
  proof cases
    case empty
    with fl show ?thesis by (simp add: first_line_def)
  next
    case fits
    with fl show ?thesis by (simp add: first_line_def)
  next
    case long
    from enforce_cut [OF long pos] obtain kept where k:
      "enforce_summary_limit msg limit = join [10] (kept # rest)" "kept \<noteq> []"
      "int (length kept) \<le> limit" "\<not> isspace (hd kept)" "\<forall>c \<in> set kept. \<not> is_linebreak c"
      by blast
    from enforce_result_lines(2) [OF k(1,2,4,5) fl] k(3) show ?thesis by simp
  qed
qed

lemma enforce_raw_first_line_bound:
  assumes pos: "0 < limit" and stripped: "strip msg = msg"
    and sl: "splitlines (enforce_summary_limit msg limit) = l # ls"
  shows "int (length l) \<le> limit"
proof -
  consider (empty) "splitlines (strip msg) = []" "enforce_summary_limit msg limit = msg"
    | (fits) s rest where "splitlines (strip msg) = s # rest" "int (length s) \<le> limit"
        "enforce_summary_limit msg limit = msg"
    | (long) s rest where "splitlines (strip msg) = s # rest" "limit < int (length s)"
    using enforce_cases [of msg limit] by blast
  then show ?thesis
  proof cases
    case empty
    with sl stripped show ?thesis by simp
  next
    case fits
    with sl stripped show ?thesis by simp
  next
    case long
    from enforce_cut [OF long pos] obtain kept where k:
      "enforce_summary_limit msg limit = join [10] (kept # rest)" "kept \<noteq> []"
      "int (length kept) \<le> limit" "\<not> isspace (hd kept)" "\<forall>c \<in> set kept. \<not> is_linebreak c"
      by blast
    from enforce_result_lines(1) [OF k(1,2,4,5)] sl k(3) show ?thesis by auto
  qed
qed

lemma enforce_unchanged:
  assumes "first_line msg = None \<or> (\<exists>s. first_line msg = Some s \<and> int (length s) \<le> limit)"
  shows "enforce_summary_limit msg limit = msg"
  using assms by (auto simp: first_line_def enforce_summary_limit_def split: list.splits)

lemma enforce_idem:
  assumes "0 < limit"
  shows "enforce_summary_limit (enforce_summary_limit msg limit) limit
           = enforce_summary_limit msg limit"
proof (rule enforce_unchanged)
  show "first_line (enforce_summary_limit msg limit) = None
    \<or> (\<exists>s. first_line (enforce_summary_limit msg limit) = Some s \<and> int (length s) \<le> limit)"
    using enforce_first_line_bound [OF assms] by (cases "first_line (enforce_summary_limit msg limit)") auto
qed

subsection \<open>\<open>truncate_summary\<close>\<close>

lemma truncate_fits:
  "int (length (strip s0)) \<le> limit \<Longrightarrow> truncate_summary s0 limit = strip s0"
  by (simp add: truncate_summary_def)

lemma truncate_cut:
  assumes long: "limit < int (length (strip s0))" and pos: "0 < limit"
  shows "\<exists>kept z. truncate_summary s0 limit = kept @ [8230]
           \<and> strip s0 = kept @ z \<and> kept \<noteq> [] \<and> int (length kept) \<le> limit
           \<and> \<not> isspace (hd kept)
           \<and> (32 \<in> set (take (nat limit) (strip s0))
                \<longrightarrow> (\<exists>q. z = 32 # q) \<and> int (length kept) < limit)
           \<and> (32 \<notin> set (take (nat limit) (strip s0))
                \<longrightarrow> kept = take (nat limit) (strip s0))"
proof -
  let ?s = "strip s0"
  let ?c0 = "slice_to ?s limit"
  let ?kept = "(if 32 \<in> set ?c0 then hd (rsplit1 32 ?c0) else ?c0)"
  from long pos have "?s \<noteq> []" by auto
  then have hd: "\<not> isspace (hd ?s)" by (rule strip_hd)
  from kept_of_long_line [OF long pos hd]
  obtain z where z: "?s = ?kept @ z" "?kept \<noteq> []" "int (length ?kept) \<le> limit"
    "hd ?kept = hd ?s"
    "32 \<in> set ?c0 \<longrightarrow> (\<exists>q. z = 32 # q) \<and> int (length ?kept) < limit"
    "32 \<notin> set ?c0 \<longrightarrow> ?kept = ?c0"
    and c0: "?c0 = take (nat limit) ?s"
    by blast
  have e: "truncate_summary s0 limit = ?kept @ [8230]"
    using long by (simp add: truncate_summary_def Let_def)
  from z(4) hd have hk: "\<not> isspace (hd ?kept)" by simp
  from e z(1) z(2) z(3) hk z(5) z(6) show ?thesis
    unfolding c0 by blast
qed

lemma truncate_length:
  assumes pos: "0 < limit"
  shows "int (length (truncate_summary s0 limit)) \<le> limit + 1"
    and "32 \<in> set (take (nat limit) (strip s0))
           \<Longrightarrow> int (length (truncate_summary s0 limit)) \<le> limit"
proof -
  show "int (length (truncate_summary s0 limit)) \<le> limit + 1"
  proof (cases "int (length (strip s0)) \<le> limit")
    case True
    then show ?thesis by (simp add: truncate_fits)
  next
    case False
    then have "limit < int (length (strip s0))" by simp
    from truncate_cut [OF this pos] show ?thesis by auto
  qed
  assume sp: "32 \<in> set (take (nat limit) (strip s0))"
  show "int (length (truncate_summary s0 limit)) \<le> limit"
  proof (cases "int (length (strip s0)) \<le> limit")
    case True
    then show ?thesis by (simp add: truncate_fits)
  next
    case False
    then have "limit < int (length (strip s0))" by simp
    from truncate_cut [OF this pos] sp show ?thesis by auto
  qed
qed

lemma truncate_idem:
  assumes pos: "0 < limit"
  shows "truncate_summary (truncate_summary s0 limit) limit = truncate_summary s0 limit"
proof (cases "int (length (strip s0)) \<le> limit")
  case True
  then show ?thesis by (simp add: truncate_fits strip_strip)
next
  case False
  then have long: "limit < int (length (strip s0))" by simp
  from truncate_cut [OF long pos] obtain kept z where k:
    "truncate_summary s0 limit = kept @ [8230]" "kept \<noteq> []" "int (length kept) \<le> limit"
    "\<not> isspace (hd kept)"
    "32 \<in> set (take (nat limit) (strip s0)) \<longrightarrow> int (length kept) < limit"
    "32 \<notin> set (take (nat limit) (strip s0)) \<longrightarrow> kept = take (nat limit) (strip s0)"
    by blast
  let ?r = "kept @ [8230]"
  have "\<not> isspace 8230" by (simp add: isspace_def)
  with k(2,4) have sr: "strip ?r = ?r" by (intro strip_id) simp_all
  show ?thesis
  proof (cases "int (length ?r) \<le> limit")
    case True
    with sr show ?thesis by (simp add: k(1) truncate_fits)
  next
    case False
    with k(3) have len: "length kept = nat limit" by simp
    with k(5) pos have ns: "32 \<notin> set (take (nat limit) (strip s0))" by auto
    with k(6) have "kept = take (nat limit) (strip s0)" by simp
    with ns have nk: "32 \<notin> set kept" by simp
    from len pos have "slice_to ?r limit = kept" by (simp add: slice_to_def)
    with False sr nk have "truncate_summary ?r limit = ?r"
      by (simp add: truncate_summary_def Let_def)
    then show ?thesis by (simp only: k(1))
  qed
qed

subsection \<open>The first line and the limit\<close>

lemma strip_replicate_a: "0 < n \<Longrightarrow> strip (replicate n 97) = replicate n 97"
  by (intro strip_id) (simp_all add: hd_replicate last_replicate isspace_def)

text \<open>
  C2, as the claim states it, fails for \<open>truncate_summary\<close>: a line of 81 letters is cut to
  80 and the marker is appended, which gives 81 characters for the limit 80.
\<close>

theorem truncate_summary_overlong_counterexample:
  "truncate_summary (replicate 81 97) 80 = replicate 80 97 @ [8230]
   \<and> length (truncate_summary (replicate 81 97) 80) = 81"
  by (simp add: truncate_summary_def strip_replicate_a slice_to_def Let_def)

text \<open>
  C2, amended. For every message and every limit above 0 (72 and 80 among them):
  \<open>enforce_summary_limit\<close> returns a text whose first line, read as the function reads it
  (the first line of the stripped text), has at most \<open>limit\<close> characters, and so has the
  first line of the returned text itself when the message comes stripped, as its callers
  pass it; \<open>truncate_summary\<close> returns at most \<open>limit + 1\<close> characters, the kept prefix and
  the marker, and at most \<open>limit\<close> when the first \<open>limit\<close> characters hold a space. When an
  over-long line has a space within its first \<open>limit\<close> characters, what either function keeps
  of it is followed by a space in the original line: the cut is at a space boundary.
\<close>

theorem first_line_within_limit:
  assumes "0 < limit"
  shows "(first_line (enforce_summary_limit msg limit) = Some l \<longrightarrow> int (length l) \<le> limit)
    \<and> (strip msg = msg \<and> splitlines (enforce_summary_limit msg limit) = l # ls
          \<longrightarrow> int (length l) \<le> limit)
    \<and> (splitlines (strip msg) = s # rest \<and> limit < int (length s)
        \<and> 32 \<in> set (take (nat limit) s)
          \<longrightarrow> (\<exists>kept q ls. s = kept @ 32 # q \<and> int (length kept) < limit
                \<and> enforce_summary_limit msg limit = join [10] (kept # rest)
                \<and> splitlines (enforce_summary_limit msg limit) = kept # ls))
    \<and> int (length (truncate_summary s0 limit)) \<le> limit + 1
    \<and> (32 \<in> set (take (nat limit) (strip s0))
          \<longrightarrow> int (length (truncate_summary s0 limit)) \<le> limit)
    \<and> (limit < int (length (strip s0)) \<and> 32 \<in> set (take (nat limit) (strip s0))
          \<longrightarrow> (\<exists>kept q. strip s0 = kept @ 32 # q \<and> int (length kept) < limit
                \<and> truncate_summary s0 limit = kept @ [8230]))"
proof (intro conjI impI)
  assume "first_line (enforce_summary_limit msg limit) = Some l"
  with assms show "int (length l) \<le> limit" by (rule enforce_first_line_bound)
next
  assume "strip msg = msg \<and> splitlines (enforce_summary_limit msg limit) = l # ls"
  with assms show "int (length l) \<le> limit" by (auto intro: enforce_raw_first_line_bound)
next
  assume a: "splitlines (strip msg) = s # rest \<and> limit < int (length s)
        \<and> 32 \<in> set (take (nat limit) s)"
  then have 1: "splitlines (strip msg) = s # rest" and 2: "limit < int (length s)" by simp_all
  from enforce_cut [OF 1 2 assms] a obtain kept q where k:
    "enforce_summary_limit msg limit = join [10] (kept # rest)" "s = kept @ 32 # q"
    "kept \<noteq> []" "\<not> isspace (hd kept)" "\<forall>c \<in> set kept. \<not> is_linebreak c"
    "int (length kept) < limit"
    by blast
  from enforce_result_lines(1) [OF k(1,3,4,5)] k
  show "\<exists>kept q ls. s = kept @ 32 # q \<and> int (length kept) < limit
                \<and> enforce_summary_limit msg limit = join [10] (kept # rest)
                \<and> splitlines (enforce_summary_limit msg limit) = kept # ls"
    by blast
next
  show "int (length (truncate_summary s0 limit)) \<le> limit + 1"
    using assms by (rule truncate_length(1))
next
  assume "32 \<in> set (take (nat limit) (strip s0))"
  with assms show "int (length (truncate_summary s0 limit)) \<le> limit"
    by (rule truncate_length(2))
next
  assume a: "limit < int (length (strip s0)) \<and> 32 \<in> set (take (nat limit) (strip s0))"
  then have "limit < int (length (strip s0))" by simp
  from truncate_cut [OF this assms] a
  show "\<exists>kept q. strip s0 = kept @ 32 # q \<and> int (length kept) < limit
                \<and> truncate_summary s0 limit = kept @ [8230]"
    by blast
qed

lemma strip_hello: "strip (py ''hello world foo'') = py ''hello world foo''"
  by (simp add: str_defs)

lemma enforce_hello: "enforce_summary_limit (py ''hello world foo'') 13 = py ''hello world''"
  by (simp add: enforce_summary_limit_def str_defs)

lemma truncate_hello: "truncate_summary (py ''hello world foo'') 13 = py ''hello world'' @ [8230]"
  by (simp add: truncate_summary_def str_defs)

lemma first_line_hello: "first_line (py ''hello world'') = Some (py ''hello world'')"
  by (simp add: first_line_def str_defs)

theorem first_line_within_limit_witness:
  "first_line (enforce_summary_limit (py ''hello world foo'') 13) = Some (py ''hello world'')
   \<and> int (length (py ''hello world'')) \<le> 13
   \<and> 32 \<in> set (take (nat 13) (strip (py ''hello world foo'')))
   \<and> int (length (truncate_summary (py ''hello world foo'') 13)) \<le> 13"
proof -
  have p: "(0::int) < 13" by simp
  have f: "first_line (enforce_summary_limit (py ''hello world foo'') 13)
             = Some (py ''hello world'')"
    by (simp only: enforce_hello first_line_hello)
  have sp: "32 \<in> set (take (nat 13) (strip (py ''hello world foo'')))"
    by (simp add: strip_hello) (simp add: py_def)
  from first_line_within_limit [OF p, where msg = "py ''hello world foo''"
      and l = "py ''hello world''" and ?s0.0 = "py ''hello world foo''"] f sp
  show ?thesis by blast
qed

text \<open>
  C3, as the claim states it, fails for \<open>truncate_summary\<close>: an input that fits the limit is
  returned stripped, not unchanged.
\<close>

theorem truncate_summary_strips_counterexample:
  "first_line (py '' ab '') = Some (py ''ab'') \<and> int (length (py '' ab '')) \<le> 80
   \<and> truncate_summary (py '' ab '') 80 = py ''ab''
   \<and> truncate_summary (py '' ab '') 80 \<noteq> py '' ab ''"
  by (simp add: first_line_def truncate_summary_def str_defs)

text \<open>
  C3, amended. For every limit above 0: \<open>enforce_summary_limit\<close> returns its input unchanged
  when the first line of the stripped input fits the limit (or there is none);
  \<open>truncate_summary\<close> returns the stripped input when that fits, which is the input itself
  when it carries no surrounding whitespace; and applying either function twice gives what
  applying it once gives.
\<close>

theorem normalizers_idempotent:
  assumes "0 < limit"
  shows "(first_line msg = None \<or> (\<exists>s. first_line msg = Some s \<and> int (length s) \<le> limit)
            \<longrightarrow> enforce_summary_limit msg limit = msg)
    \<and> enforce_summary_limit (enforce_summary_limit msg limit) limit
        = enforce_summary_limit msg limit
    \<and> (int (length (strip s0)) \<le> limit \<longrightarrow> truncate_summary s0 limit = strip s0)
    \<and> (strip s0 = s0 \<and> int (length s0) \<le> limit \<longrightarrow> truncate_summary s0 limit = s0)
    \<and> truncate_summary (truncate_summary s0 limit) limit = truncate_summary s0 limit"
  using assms enforce_unchanged [of msg limit] enforce_idem [of limit msg]
    truncate_fits [of s0 limit] truncate_idem [of limit s0]
  by auto

theorem normalizers_idempotent_witness:
  "enforce_summary_limit (py ''hello world'') 13 = py ''hello world''
   \<and> enforce_summary_limit (enforce_summary_limit (py ''hello world foo'') 13) 13
       = py ''hello world''
   \<and> truncate_summary (truncate_summary (py ''hello world foo'') 13) 13
       = py ''hello world'' @ [8230]"
proof -
  have p: "(0::int) < 13" by simp
  have l: "int (length (py ''hello world'')) \<le> 13" by (simp add: py_def)
  from normalizers_idempotent [OF p, where msg = "py ''hello world''"] first_line_hello l
  have a: "enforce_summary_limit (py ''hello world'') 13 = py ''hello world''" by blast
  from normalizers_idempotent [OF p, where msg = "py ''hello world foo''"
      and ?s0.0 = "py ''hello world foo''"]
  have "enforce_summary_limit (enforce_summary_limit (py ''hello world foo'') 13) 13
          = enforce_summary_limit (py ''hello world foo'') 13"
    and "truncate_summary (truncate_summary (py ''hello world foo'') 13) 13
          = truncate_summary (py ''hello world foo'') 13"
    by blast+
  with a show ?thesis by (simp only: enforce_hello truncate_hello)
qed

end
